theory Spec2Isabelle
  imports Complex_Main "HOL-Library.Log_Nat"
begin

section \<open>Python values and exceptions\<close>

text \<open>
  The exceptions the modelled code can raise. A function that can raise returns
  \<open>py_error + 'a\<close>, with \<open>Inl\<close> for the exception.
\<close>

datatype py_error =
    OverflowError
  | ZeroDivisionError
  | ValueError
  | TypeError
  | AttributeError
  | JSONDecodeError
  | RecursionError

text \<open>
  The scalar values a field of a probed stream can hold: JSON null, booleans, integers
  and strings (ffprobe writes \<open>index\<close> and \<open>channels\<close> as integers and
  \<open>codec_type\<close>, \<open>codec_name\<close> and \<open>bit_rate\<close> as strings).
\<close>

datatype pyval = PNone | PBool bool | PInt int | PStr string

text \<open>Python's \<open>==\<close> on these values: \<open>True == 1\<close> and \<open>False == 0\<close> hold.\<close>

fun py_eq :: "pyval \<Rightarrow> pyval \<Rightarrow> bool" where
  "py_eq PNone PNone = True"
| "py_eq (PBool a) (PBool b) = (a = b)"
| "py_eq (PBool a) (PInt b) = ((if a then 1 else 0) = b)"
| "py_eq (PInt a) (PBool b) = (a = (if b then 1 else 0))"
| "py_eq (PInt a) (PInt b) = (a = b)"
| "py_eq (PStr a) (PStr b) = (a = b)"
| "py_eq _ _ = False"

text \<open>\<open>x in L\<close> for a list of string constants.\<close>

definition py_in :: "pyval \<Rightarrow> string list \<Rightarrow> bool" where
  "py_in x L = list_ex (\<lambda>s. py_eq x (PStr s)) L"

section \<open>Python floats\<close>

text \<open>
  A Python float is an IEEE 754 double: a finite value (kept as the rational it denotes),
  an infinity or NaN. The sign of zero is not kept. Every operation rounds its exact
  result to the nearest double, ties to the even significand (\<open>fl\<close>).
\<close>

datatype pyfloat = Fin rat | PInf | NInf | NaN

text \<open>The binary exponent of a positive rational: \<open>2 ^ expo q \<le> q < 2 ^ (expo q + 1)\<close>.\<close>

definition expo :: "rat \<Rightarrow> int" where
  "expo q = (let (a, b) = quotient_of q; e = bitlen a - bitlen b
             in if 2 powi e \<le> q then e else e - 1)"

text \<open>Rounding to the nearest integer, ties to even.\<close>

definition rhe :: "rat \<Rightarrow> int" where
  "rhe x = (let f = \<lfloor>x\<rfloor>; r = x - of_int f
            in if r < 1/2 then f else if 1/2 < r then f + 1
               else if even f then f else f + 1)"

text \<open>
  The spacing of the doubles around a positive rational (53 significant bits, the
  smallest normal exponent -1022, subnormals below), and the rounding of a positive
  rational to that grid.
\<close>

definition ulp :: "rat \<Rightarrow> rat" where
  "ulp a = 2 powi (max (expo a) (- 1022) - 52)"

definition rnd :: "rat \<Rightarrow> rat" where
  "rnd a = of_int (rhe (a / ulp a)) * ulp a"

definition fl :: "rat \<Rightarrow> pyfloat" where
  "fl q = (if q = 0 then Fin 0
           else let r = rnd \<bar>q\<bar>
                in if 2 powi 1024 \<le> r then (if 0 < q then PInf else NInf)
                   else Fin (if 0 < q then r else - r))"

text \<open>
  \<open>float(n)\<close> as the arithmetic operators apply it to an int operand: it raises
  OverflowError when the int is too large for a double.
\<close>

definition float_of_int :: "int \<Rightarrow> py_error + pyfloat" where
  "float_of_int n = (case fl (of_int n) of Fin r \<Rightarrow> Inr (Fin r) | _ \<Rightarrow> Inl OverflowError)"

text \<open>
  \<open>a / b\<close> on two ints: the correctly rounded quotient, ZeroDivisionError for a zero
  divisor, OverflowError when the quotient is too large for a double.
\<close>

definition int_truediv :: "int \<Rightarrow> int \<Rightarrow> py_error + pyfloat" where
  "int_truediv a b =
     (if b = 0 then Inl ZeroDivisionError
      else case fl (of_int a / of_int b) of Fin r \<Rightarrow> Inr (Fin r) | _ \<Rightarrow> Inl OverflowError)"

text \<open>Float addition and multiplication never raise: they overflow to an infinity.\<close>

fun float_add :: "pyfloat \<Rightarrow> pyfloat \<Rightarrow> pyfloat" where
  "float_add (Fin a) (Fin b) = fl (a + b)"
| "float_add NaN _ = NaN"
| "float_add _ NaN = NaN"
| "float_add PInf NInf = NaN"
| "float_add NInf PInf = NaN"
| "float_add PInf _ = PInf"
| "float_add _ PInf = PInf"
| "float_add NInf _ = NInf"
| "float_add _ NInf = NInf"

fun float_neg :: "pyfloat \<Rightarrow> pyfloat" where
  "float_neg (Fin a) = Fin (- a)"
| "float_neg PInf = NInf"
| "float_neg NInf = PInf"
| "float_neg NaN = NaN"

fun float_mul :: "pyfloat \<Rightarrow> pyfloat \<Rightarrow> pyfloat" where
  "float_mul (Fin a) (Fin b) = fl (a * b)"
| "float_mul NaN _ = NaN"
| "float_mul _ NaN = NaN"
| "float_mul (Fin a) x = (if a = 0 then NaN else if 0 < a then x else float_neg x)"
| "float_mul x (Fin b) = (if b = 0 then NaN else if 0 < b then x else float_neg x)"
| "float_mul PInf x = x"
| "float_mul NInf x = float_neg x"

text \<open>Float division raises ZeroDivisionError for a zero divisor.\<close>

fun float_div :: "pyfloat \<Rightarrow> pyfloat \<Rightarrow> py_error + pyfloat" where
  "float_div NaN (Fin b) = (if b = 0 then Inl ZeroDivisionError else Inr NaN)"
| "float_div (Fin a) (Fin b) = (if b = 0 then Inl ZeroDivisionError else Inr (fl (a / b)))"
| "float_div PInf (Fin b) =
     (if b = 0 then Inl ZeroDivisionError else Inr (if 0 < b then PInf else NInf))"
| "float_div NInf (Fin b) =
     (if b = 0 then Inl ZeroDivisionError else Inr (if 0 < b then NInf else PInf))"
| "float_div NaN _ = Inr NaN"
| "float_div _ NaN = Inr NaN"
| "float_div (Fin a) _ = Inr (Fin 0)"
| "float_div _ _ = Inr NaN"

text \<open>Python's \<open><\<close> on floats: every comparison with NaN is false.\<close>

fun float_lt :: "pyfloat \<Rightarrow> pyfloat \<Rightarrow> bool" where
  "float_lt (Fin a) (Fin b) = (a < b)"
| "float_lt NaN _ = False"
| "float_lt _ NaN = False"
| "float_lt _ NInf = False"
| "float_lt PInf _ = False"
| "float_lt _ _ = True"

fun float_le :: "pyfloat \<Rightarrow> pyfloat \<Rightarrow> bool" where
  "float_le (Fin a) (Fin b) = (a \<le> b)"
| "float_le NaN _ = False"
| "float_le _ NaN = False"
| "float_le NInf _ = True"
| "float_le _ PInf = True"
| "float_le _ _ = False"

text \<open>Truth value of a float: false for zero only.\<close>

fun float_bool :: "pyfloat \<Rightarrow> bool" where
  "float_bool (Fin a) = (a \<noteq> 0)"
| "float_bool _ = True"

text \<open>
  \<open>int(x)\<close> on a float truncates towards zero; it raises OverflowError on an infinity
  and ValueError on NaN.
\<close>

fun int_of_float :: "pyfloat \<Rightarrow> py_error + int" where
  "int_of_float (Fin a) = Inr (if 0 \<le> a then \<lfloor>a\<rfloor> else \<lceil>a\<rceil>)"
| "int_of_float NaN = Inl ValueError"
| "int_of_float _ = Inl OverflowError"

section \<open>The bitrate normaliser\<close>

definition EFFICIENT_CODECS :: "string list" where
  "EFFICIENT_CODECS = [''aac'', ''opus'', ''vorbis'']"

definition LEGACY_LOSSY_CODECS :: "string list" where
  "LEGACY_LOSSY_CODECS = [''mp3'', ''wma'', ''wma2'', ''ac3'', ''eac3'', ''dts'', ''atrac3'']"

definition LOSSLESS_CODECS :: "string list" where
  "LOSSLESS_CODECS = [''flac'', ''alac'', ''pcm_s16le'', ''pcm_s24le'', ''pcm_s32le'', ''mlp'']"

text \<open>
  \<open>equivalent_aac_bitrate(codec, bitrate, channels)\<close>. The bitrate is an int or None;
  \<open>bitrate * scale\<close> converts the int to a float and multiplies, \<open>int(...)\<close> truncates.
  The float literals 0.8, 1.0 and 1.5 are the doubles nearest to them.
\<close>

definition equivalent_aac_bitrate :: "pyval \<Rightarrow> int option \<Rightarrow> pyval \<Rightarrow> py_error + int" where
  "equivalent_aac_bitrate codec bitrate channels =
     (if (case bitrate of None \<Rightarrow> True | Some b \<Rightarrow> b = 0 \<or> b \<le> 0) then
        (if py_eq channels (PInt 1) then Inr 128000
         else if py_eq channels (PInt 2) then Inr 320000
         else Inr 512000)
      else
        let scale = (if py_in codec EFFICIENT_CODECS then fl 1
                     else if py_in codec LEGACY_LOSSY_CODECS then fl (8 / 10)
                     else if py_in codec LOSSLESS_CODECS then fl (15 / 10)
                     else fl 1)
        in case float_of_int (the bitrate) of
             Inl e \<Rightarrow> Inl e
           | Inr b \<Rightarrow>
              (case int_of_float (float_mul b scale) of
                 Inl e \<Rightarrow> Inl e
               | Inr target \<Rightarrow>
                   (if py_eq channels (PInt 1) then Inr (min (max 32000 target) 128000)
                    else if py_eq channels (PInt 2) then Inr (min (max 64000 target) 320000)
                    else Inr (min (max 192000 target) 512000))))"

text \<open>
  The normaliser as the specification words it, in exact arithmetic: the channel-based
  default for a missing or non-positive bitrate, otherwise the bitrate times the scale
  of the codec family, truncated and clamped per channel count.
\<close>

definition spec_scale :: "string \<Rightarrow> rat" where
  "spec_scale codec =
     (if codec \<in> {''aac'', ''opus'', ''vorbis''} then 1
      else if codec \<in> {''mp3'', ''wma'', ''wma2'', ''ac3'', ''eac3'', ''dts'', ''atrac3''} then 8 / 10
      else if codec \<in> {''flac'', ''alac'', ''pcm_s16le'', ''pcm_s24le'', ''pcm_s32le'', ''mlp''}
        then 15 / 10
      else 1)"

definition spec_clamp :: "int \<Rightarrow> int \<Rightarrow> int" where
  "spec_clamp channels t =
     (if channels = 1 then min (max 32000 t) 128000
      else if channels = 2 then min (max 64000 t) 320000
      else min (max 192000 t) 512000)"

definition spec_target_bitrate :: "string \<Rightarrow> int option \<Rightarrow> int \<Rightarrow> int" where
  "spec_target_bitrate codec bitrate channels =
     (case bitrate of
        None \<Rightarrow> (if channels = 1 then 128000 else if channels = 2 then 320000 else 512000)
      | Some b \<Rightarrow>
          if b \<le> 0 then (if channels = 1 then 128000 else if channels = 2 then 320000 else 512000)
          else spec_clamp channels \<lfloor>of_int b * spec_scale codec\<rfloor>)"

section \<open>The stream prober\<close>

text \<open>
  A decoded JSON document, as \<open>json.loads\<close> returns it. An object is the dict it decodes
  to, kept as an association list and looked up with \<open>map_of\<close>.
\<close>

datatype json =
    JNull
  | JBool bool
  | JInt int
  | JFloat pyfloat
  | JStr string
  | JArr "json list"
  | JObj "(string \<times> json) list"

text \<open>
  \<open>get_streams\<close>. The argument is the outcome of \<open>json.loads(result.stdout)\<close>: the decoded
  document, or the exception the decoder raised. Only JSONDecodeError is caught; the
  \<open>.get\<close> call is inside the \<open>try\<close> and raises AttributeError on anything but a dict.
\<close>

fun get_streams :: "py_error + json \<Rightarrow> py_error + json" where
  "get_streams (Inr (JObj kvs)) =
     Inr (case map_of kvs ''streams'' of None \<Rightarrow> JArr [] | Some v \<Rightarrow> v)"
| "get_streams (Inr _) = Inl AttributeError"
| "get_streams (Inl JSONDecodeError) = Inr (JArr [])"
| "get_streams (Inl e) = Inl e"

section \<open>Strings\<close>

text \<open>\<open>str(n)\<close> for an int: decimal digits, a minus sign for a negative number.\<close>

fun str_nat :: "nat \<Rightarrow> string" where
  "str_nat n = (if n < 10 then [''0123456789'' ! n]
                else str_nat (n div 10) @ [''0123456789'' ! (n mod 10)])"

declare str_nat.simps [simp del]

definition str_int :: "int \<Rightarrow> string" where
  "str_int n = (if n < 0 then CHR ''-'' # str_nat (nat (- n)) else str_nat (nat n))"

text \<open>\<open>str(v)\<close>, as an f-string applies it to a field value.\<close>

fun py_str :: "pyval \<Rightarrow> string" where
  "py_str PNone = ''None''"
| "py_str (PBool b) = (if b then ''True'' else ''False'')"
| "py_str (PInt n) = str_int n"
| "py_str (PStr s) = s"

section \<open>The command planner\<close>

text \<open>
  A probed stream is a dict from field names to scalar values; \<open>stream.get(k, d)\<close> is
  \<open>stream_get stream k d\<close>.
\<close>

type_synonym stream = "string \<Rightarrow> pyval option"

definition stream_get :: "stream \<Rightarrow> string \<Rightarrow> pyval \<Rightarrow> pyval" where
  "stream_get stream k d = (case stream k of None \<Rightarrow> d | Some v \<Rightarrow> v)"

text \<open>
  \<open>int(stream.get("bit_rate", 0) or 0)\<close> with ValueError caught and replaced by 0. The
  built-in \<open>int\<close> on a string is the parameter \<open>int_of_str\<close> (\<open>None\<close> where it raises
  ValueError). A falsy value (None, False, 0, the empty string) is replaced by 0 before
  the conversion.
\<close>

definition bitrate_of :: "(string \<Rightarrow> int option) \<Rightarrow> stream \<Rightarrow> int" where
  "bitrate_of int_of_str stream =
     (case stream_get stream ''bit_rate'' (PInt 0) of
        PNone \<Rightarrow> 0
      | PBool b \<Rightarrow> (if b then 1 else 0)
      | PInt n \<Rightarrow> n
      | PStr s \<Rightarrow> (if s = [] then 0
                   else case int_of_str s of None \<Rightarrow> 0 | Some n \<Rightarrow> n))"

text \<open>The state of the loop of \<open>build_ffmpeg_command\<close>.\<close>

record bstate =
  cmd :: "string list"
  v_map_idx :: nat
  a_map_idx :: nat
  has_audio :: bool

text \<open>One iteration of the loop over the streams.\<close>

definition stream_step ::
  "(string \<Rightarrow> int option) \<Rightarrow> int \<Rightarrow> string \<Rightarrow> bstate \<Rightarrow> stream \<Rightarrow> py_error + bstate" where
  "stream_step int_of_str crf preset st stream =
     (let stype = stream_get stream ''codec_type'' PNone;
          idx = stream_get stream ''index'' PNone
      in if py_eq stype (PStr ''video'') then
           let codec = stream_get stream ''codec_name'' (PStr []);
               cmd1 = cmd st @ [''-map'', ''0:'' @ py_str idx];
               cmd2 = (if py_eq codec (PStr ''h264'')
                       then cmd1 @ [''-c:v:'' @ str_nat (v_map_idx st), ''copy'']
                       else cmd1 @ [''-c:v:'' @ str_nat (v_map_idx st), ''libx264'',
                                    ''-crf'', str_int crf, ''-preset'', preset])
           in Inr (st\<lparr>cmd := cmd2, v_map_idx := v_map_idx st + 1\<rparr>)
         else if py_eq stype (PStr ''audio'') then
           let channels = stream_get stream ''channels'' (PInt 2);
               codec = stream_get stream ''codec_name'' (PStr []);
               bitrate = bitrate_of int_of_str stream
           in case equivalent_aac_bitrate codec (Some bitrate) channels of
                Inl e \<Rightarrow> Inl e
              | Inr target_bitrate \<Rightarrow>
                  let cmd1 = cmd st @ [''-map'', ''0:'' @ py_str idx];
                      cmd2 = (if py_eq codec (PStr ''aac'') \<and> target_bitrate \<le> bitrate
                              then cmd1 @ [''-c:a:'' @ str_nat (a_map_idx st), ''copy'']
                              else cmd1 @ [''-c:a:'' @ str_nat (a_map_idx st), ''aac'',
                                           ''-profile:a'', ''aac_low'',
                                           ''-b:a:'' @ str_nat (a_map_idx st),
                                           str_int target_bitrate])
                  in Inr (st\<lparr>cmd := cmd2, a_map_idx := a_map_idx st + 1, has_audio := True\<rparr>)
         else Inr st)"

fun stream_loop ::
  "(string \<Rightarrow> int option) \<Rightarrow> int \<Rightarrow> string \<Rightarrow> bstate \<Rightarrow> stream list \<Rightarrow> py_error + bstate" where
  "stream_loop int_of_str crf preset st [] = Inr st"
| "stream_loop int_of_str crf preset st (stream # streams) =
     (case stream_step int_of_str crf preset st stream of
        Inl e \<Rightarrow> Inl e
      | Inr st' \<Rightarrow> stream_loop int_of_str crf preset st' streams)"

text \<open>
  \<open>build_ffmpeg_command(input_file, output_file, crf, preset)\<close>. The probed streams
  (\<open>get_streams(input_file)\<close>) are an argument.
\<close>

definition build_ffmpeg_command ::
  "(string \<Rightarrow> int option) \<Rightarrow> stream list \<Rightarrow> string \<Rightarrow> string \<Rightarrow> int \<Rightarrow> string
   \<Rightarrow> py_error + string list" where
  "build_ffmpeg_command int_of_str streams input_file output_file crf preset =
     (case stream_loop int_of_str crf preset
             \<lparr>cmd = [''ffmpeg'', ''-y'', ''-i'', input_file],
              v_map_idx = 0, a_map_idx = 0, has_audio = False\<rparr> streams of
        Inl e \<Rightarrow> Inl e
      | Inr st \<Rightarrow> Inr (cmd st @ [''-movflags'', ''+faststart'', output_file]))"

text \<open>
  A conversion of plain decimal strings (an optional minus sign, then digits), on which it
  agrees with Python's \<open>int\<close>; used where a concrete \<open>int_of_str\<close> is needed.
\<close>

definition is_digit :: "char \<Rightarrow> bool" where
  "is_digit c = (c \<in> set ''0123456789'')"

definition digit_val :: "char \<Rightarrow> int" where
  "digit_val c = int (of_char c) - 48"

definition int_of_digits :: "string \<Rightarrow> int" where
  "int_of_digits s = foldl (\<lambda>a c. 10 * a + digit_val c) 0 s"

definition decimal_int :: "string \<Rightarrow> int option" where
  "decimal_int s =
     (case s of
        [] \<Rightarrow> None
      | c # cs \<Rightarrow>
          if c = CHR ''-'' then (if cs \<noteq> [] \<and> list_all is_digit cs then Some (- int_of_digits cs) else None)
          else if list_all is_digit s then Some (int_of_digits s) else None)"

text \<open>
  The planner as the specification words it. A video stream is copied when its codec is
  already h264 and is otherwise transcoded to libx264 with the crf and preset; an audio
  stream is copied when its codec is already aac and its bitrate is at least the target
  of the normaliser, and is otherwise transcoded to aac at the target bitrate with the
  aac_low profile. Each mapped stream is preceded by its \<open>-map\<close> directive and takes the
  next output index of its type; other streams are dropped. Every video and audio
  stream gets its decision: where the normaliser has no target for an audio stream
  there is no plan, and the exception of the normaliser is the result.
\<close>

definition is_video :: "stream \<Rightarrow> bool" where
  "is_video stream = (stream ''codec_type'' = Some (PStr ''video''))"

definition is_audio :: "stream \<Rightarrow> bool" where
  "is_audio stream = (stream ''codec_type'' = Some (PStr ''audio''))"

definition map_directive :: "stream \<Rightarrow> string list" where
  "map_directive stream = [''-map'', ''0:'' @ py_str (stream_get stream ''index'' PNone)]"

definition spec_video_action :: "stream \<Rightarrow> int \<Rightarrow> string \<Rightarrow> string list" where
  "spec_video_action stream crf preset =
     (if stream ''codec_name'' = Some (PStr ''h264'') then [''copy'']
      else [''libx264'', ''-crf'', str_int crf, ''-preset'', preset])"

definition spec_audio_action :: "stream \<Rightarrow> int \<Rightarrow> int \<Rightarrow> nat \<Rightarrow> string list" where
  "spec_audio_action stream bitrate target k =
     (if stream ''codec_name'' = Some (PStr ''aac'') \<and> target \<le> bitrate then [''copy'']
      else [''aac'', ''-profile:a'', ''aac_low'', ''-b:a:'' @ str_nat k, str_int target])"

fun spec_plan ::
  "(string \<Rightarrow> int option) \<Rightarrow> int \<Rightarrow> string \<Rightarrow> nat \<Rightarrow> nat \<Rightarrow> stream list
   \<Rightarrow> py_error + string list" where
  "spec_plan int_of_str crf preset v a [] = Inr []"
| "spec_plan int_of_str crf preset v a (stream # streams) =
     (if is_video stream then
        (case spec_plan int_of_str crf preset (v + 1) a streams of
           Inl e \<Rightarrow> Inl e
         | Inr plan \<Rightarrow>
             Inr (map_directive stream @ [''-c:v:'' @ str_nat v]
                  @ spec_video_action stream crf preset @ plan))
      else if is_audio stream then
        (case equivalent_aac_bitrate (stream_get stream ''codec_name'' (PStr []))
                (Some (bitrate_of int_of_str stream))
                (stream_get stream ''channels'' (PInt 2)) of
           Inl e \<Rightarrow> Inl e
         | Inr target \<Rightarrow>
             (case spec_plan int_of_str crf preset v (a + 1) streams of
                Inl e \<Rightarrow> Inl e
              | Inr plan \<Rightarrow>
                  Inr (map_directive stream @ [''-c:a:'' @ str_nat a]
                       @ spec_audio_action stream (bitrate_of int_of_str stream) target a
                       @ plan)))
      else spec_plan int_of_str crf preset v a streams)"



text \<open>
  An example probe result: an hevc video stream, an mp3 audio stream, a subtitle stream,
  an h264 video stream and an aac audio stream.
\<close>

definition example_streams :: "stream list" where
  "example_streams =
     [[''index'' \<mapsto> PInt 0, ''codec_type'' \<mapsto> PStr ''video'', ''codec_name'' \<mapsto> PStr ''hevc''],
      [''index'' \<mapsto> PInt 1, ''codec_type'' \<mapsto> PStr ''audio'', ''codec_name'' \<mapsto> PStr ''mp3'',
       ''channels'' \<mapsto> PInt 2, ''bit_rate'' \<mapsto> PStr ''200000''],
      [''index'' \<mapsto> PInt 2, ''codec_type'' \<mapsto> PStr ''subtitle'', ''codec_name'' \<mapsto> PStr ''subrip''],
      [''index'' \<mapsto> PInt 3, ''codec_type'' \<mapsto> PStr ''video'', ''codec_name'' \<mapsto> PStr ''h264''],
      [''index'' \<mapsto> PInt 4, ''codec_type'' \<mapsto> PStr ''audio'', ''codec_name'' \<mapsto> PStr ''aac'',
       ''channels'' \<mapsto> PInt 2, ''bit_rate'' \<mapsto> PStr ''400000'']]"

definition example_command :: "string list" where
  "example_command =
     [''ffmpeg'', ''-y'', ''-i'', ''in.mkv'',
      ''-map'', ''0:0'', ''-c:v:0'', ''libx264'', ''-crf'', ''18'', ''-preset'', ''slow'',
      ''-map'', ''0:1'', ''-c:a:0'', ''aac'', ''-profile:a'', ''aac_low'', ''-b:a:0'', ''160000'',
      ''-map'', ''0:3'', ''-c:v:1'', ''copy'',
      ''-map'', ''0:4'', ''-c:a:1'', ''copy'',
      ''-movflags'', ''+faststart'', ''in.mp4'']"

section \<open>Regular expressions\<close>

text \<open>
  The patterns of the progress parser are sequences of three kinds of atoms: a literal
  character, \<open>.\<close> (any character but a newline) and the capturing group \<open>(\d+)\<close>.
  \<open>re_match\<close> matches a pattern at the start of a string as Python's backtracking
  matcher does: a group first takes the longest run of digits and gives characters back
  one at a time while the rest of the pattern fails. It returns the captured groups.
  Characters are code points below 256, where \<open>\d\<close> matches the ten ASCII digits only.
\<close>

datatype re_atom = Lit char | AnyChar | Digits

fun re_match :: "re_atom list \<Rightarrow> string \<Rightarrow> string list option"
  and re_digits :: "re_atom list \<Rightarrow> string \<Rightarrow> nat \<Rightarrow> string list option" where
  "re_match [] s = Some []"
| "re_match (Lit c # p) s =
     (case s of [] \<Rightarrow> None | x # xs \<Rightarrow> if x = c then re_match p xs else None)"
| "re_match (AnyChar # p) s =
     (case s of [] \<Rightarrow> None | x # xs \<Rightarrow> if x \<noteq> CHR 0x0A then re_match p xs else None)"
| "re_match (Digits # p) s = re_digits p s (length (takeWhile is_digit s))"
| "re_digits p s 0 = None"
| "re_digits p s (Suc k) =
     (case re_match p (drop (Suc k) s) of
        Some gs \<Rightarrow> Some (take (Suc k) s # gs)
      | None \<Rightarrow> re_digits p s k)"

text \<open>\<open>re.search\<close>: the match at the leftmost position where the pattern matches.\<close>

fun re_search :: "re_atom list \<Rightarrow> string \<Rightarrow> string list option" where
  "re_search p [] = re_match p []"
| "re_search p (x # xs) =
     (case re_match p (x # xs) of Some gs \<Rightarrow> Some gs | None \<Rightarrow> re_search p xs)"

text \<open>\<open>sub in s\<close> on strings.\<close>

fun starts_with :: "string \<Rightarrow> string \<Rightarrow> bool" where
  "starts_with [] s = True"
| "starts_with (c # cs) [] = False"
| "starts_with (c # cs) (x # xs) = (c = x \<and> starts_with cs xs)"

fun py_contains :: "string \<Rightarrow> string \<Rightarrow> bool" where
  "py_contains sub [] = (sub = [])"
| "py_contains sub (x # xs) = (starts_with sub (x # xs) \<or> py_contains sub xs)"

section \<open>The progress parser\<close>

text \<open>
  The parsing loop exists twice: in \<open>convert_file\<close> of the library, where the dot of the
  patterns is unescaped and the hundredths are divided by the int \<open>100\<close>, and in
  \<open>convert_file_with_control\<close> of the GUI, where the dot is escaped and the hundredths
  are divided by the float \<open>100.0\<close>.
\<close>

datatype variant = Library | Gui

definition dot_atom :: "variant \<Rightarrow> re_atom" where
  "dot_atom v = (case v of Library \<Rightarrow> AnyChar | Gui \<Rightarrow> Lit CHR ''.'')"

definition duration_re :: "variant \<Rightarrow> re_atom list" where
  "duration_re v = map Lit ''Duration: ''
     @ [Digits, Lit CHR '':'', Digits, Lit CHR '':'', Digits, dot_atom v, Digits]"

definition time_re :: "variant \<Rightarrow> re_atom list" where
  "time_re v = map Lit ''time=''
     @ [Digits, Lit CHR '':'', Digits, Lit CHR '':'', Digits, dot_atom v, Digits]"

text \<open>
  \<open>h, m, s, ms = map(int, match.groups())\<close> followed by
  \<open>h * 3600 + m * 60 + s + ms / 100\<close>. The sum of the first three terms is an int; the
  quotient is a float, to which the int is converted for the last addition.
\<close>

definition hundredths :: "variant \<Rightarrow> int \<Rightarrow> py_error + pyfloat" where
  "hundredths v ms =
     (case v of
        Library \<Rightarrow> int_truediv ms 100
      | Gui \<Rightarrow> (case float_of_int ms of Inl e \<Rightarrow> Inl e | Inr x \<Rightarrow> float_div x (Fin 100)))"

text \<open>
  \<open>int(g)\<close> for a captured group \<open>g\<close>, a string of decimal digits: the conversion raises
  ValueError when the string has more than 4300 digits (the default limit of
  \<open>sys.int_max_str_digits\<close>).
\<close>

definition py_int :: "string \<Rightarrow> py_error + int" where
  "py_int g = (if 4300 < length g then Inl ValueError else Inr (int_of_digits g))"

text \<open>\<open>map(int, match.groups())\<close>, as the unpacking consumes it: in order.\<close>

fun ints :: "string list \<Rightarrow> py_error + int list" where
  "ints [] = Inr []"
| "ints (g # gs) =
     (case py_int g of
        Inl e \<Rightarrow> Inl e
      | Inr n \<Rightarrow> (case ints gs of Inl e \<Rightarrow> Inl e | Inr ns \<Rightarrow> Inr (n # ns)))"

text \<open>\<open>h * 3600 + m * 60 + s + ms / 100\<close> (or \<open>ms / 100.0\<close>) for the four unpacked ints.\<close>

fun clock :: "variant \<Rightarrow> int list \<Rightarrow> py_error + pyfloat" where
  "clock v [h, m, s, ms] =
     (case hundredths v ms of
        Inl e \<Rightarrow> Inl e
      | Inr f \<Rightarrow>
         (case float_of_int (h * 3600 + m * 60 + s) of
            Inl e \<Rightarrow> Inl e
          | Inr n \<Rightarrow> Inr (float_add n f)))"
| "clock v _ = Inl ValueError"

definition seconds :: "variant \<Rightarrow> string list \<Rightarrow> py_error + pyfloat" where
  "seconds v groups = (case ints groups of Inl e \<Rightarrow> Inl e | Inr ns \<Rightarrow> clock v ns)"

text \<open>
  \<open>min(elapsed / duration * 100, 100)\<close>. \<open>min(x, 100)\<close> returns 100 when \<open>100 < x\<close> and
  \<open>x\<close> otherwise (also when \<open>x\<close> is NaN); the int 100 is identified with the float 100.0.
\<close>

definition py_min_100 :: "pyfloat \<Rightarrow> pyfloat" where
  "py_min_100 x = (if float_lt (Fin 100) x then Fin 100 else x)"

definition percent_of :: "pyfloat \<Rightarrow> pyfloat \<Rightarrow> py_error + pyfloat" where
  "percent_of elapsed duration =
     (case float_div elapsed duration of
        Inl e \<Rightarrow> Inl e
      | Inr q \<Rightarrow> Inr (py_min_100 (float_mul q (Fin 100))))"

text \<open>
  The body of the loop over the lines of the encoder's diagnostic stream: from the
  duration known so far (\<open>None\<close> at the start) and a line to the duration afterwards and
  the percentage passed to the callback, if any.
\<close>

definition process_line ::
  "variant \<Rightarrow> pyfloat option \<Rightarrow> string \<Rightarrow> py_error + (pyfloat option \<times> pyfloat option)" where
  "process_line v duration line =
     (if py_contains ''Duration'' line \<and> duration = None then
        (case re_search (duration_re v) line of
           None \<Rightarrow> Inr (duration, None)
         | Some groups \<Rightarrow>
            (case seconds v groups of Inl e \<Rightarrow> Inl e | Inr d \<Rightarrow> Inr (Some d, None)))
      else if py_contains ''time='' line
              \<and> (case duration of None \<Rightarrow> False | Some d \<Rightarrow> float_bool d) then
        (case re_search (time_re v) line of
           None \<Rightarrow> Inr (duration, None)
         | Some groups \<Rightarrow>
            (case seconds v groups of
               Inl e \<Rightarrow> Inl e
             | Inr elapsed \<Rightarrow>
                (case percent_of elapsed (the duration) of
                   Inl e \<Rightarrow> Inl e
                 | Inr percent \<Rightarrow> Inr (duration, Some percent))))
      else Inr (duration, None))"

text \<open>
  The loop. The callback returns what it did with the value, or the exception it raised;
  the loop returns what the callbacks did, in order, and the exception that ended it,
  if any.
\<close>

fun parse_loop ::
  "variant \<Rightarrow> (pyfloat \<Rightarrow> py_error + 'a) \<Rightarrow> pyfloat option \<Rightarrow> string list
   \<Rightarrow> 'a list \<times> py_error option" where
  "parse_loop v cb duration [] = ([], None)"
| "parse_loop v cb duration (line # lines) =
     (case process_line v duration line of
        Inl e \<Rightarrow> ([], Some e)
      | Inr (duration', None) \<Rightarrow> parse_loop v cb duration' lines
      | Inr (duration', Some percent) \<Rightarrow>
         (case cb percent of
            Inl e \<Rightarrow> ([], Some e)
          | Inr a \<Rightarrow>
              (case parse_loop v cb duration' lines of (as, r) \<Rightarrow> (a # as, r))))"

text \<open>A callback that records the value it is passed.\<close>

definition record_cb :: "pyfloat \<Rightarrow> py_error + pyfloat" where
  "record_cb p = Inr p"

section \<open>The conversion of one file\<close>

text \<open>
  The file system: which paths are regular files and which are directories.
\<close>

record world =
  is_file :: "string \<Rightarrow> bool"
  is_dir :: "string \<Rightarrow> bool"

definition path_exists :: "world \<Rightarrow> string \<Rightarrow> bool" where
  "path_exists w p = (is_file w p \<or> is_dir w p)"

text \<open>
  What the external tools do for one input file: the streams the prober reports, the
  lines the encoder writes to its diagnostic stream, its exit status, and whether it
  creates the output file.
\<close>

record job =
  job_streams :: "stream list"
  job_lines :: "string list"
  job_returncode :: int
  job_creates_output :: bool

text \<open>
  What a call did: the command of the encoder it started (if it started one), what the
  callbacks did, and the exception it raised (if it raised one).
\<close>

record 'a run =
  started :: "string list option"
  effects :: "'a list"
  raised :: "py_error option"

text \<open>\<open>convert_file(input_file, output_file, progress_callback)\<close>.\<close>

definition convert_file ::
  "(string \<Rightarrow> int option) \<Rightarrow> world \<Rightarrow> job \<Rightarrow> string \<Rightarrow> string
   \<Rightarrow> (pyfloat \<Rightarrow> py_error + 'a) option \<Rightarrow> 'a run" where
  "convert_file int_of_str w j input_file output_file progress_callback =
     (if path_exists w output_file then \<lparr>started = None, effects = [], raised = None\<rparr>
      else
        case build_ffmpeg_command int_of_str (job_streams j) input_file output_file 18 ''slow'' of
          Inl e \<Rightarrow> \<lparr>started = None, effects = [], raised = Some e\<rparr>
        | Inr c \<Rightarrow>
           (case progress_callback of
              None \<Rightarrow> \<lparr>started = Some c, effects = [], raised = None\<rparr>
            | Some cb \<Rightarrow>
               (case parse_loop Library cb None (job_lines j) of
                  (as, Some e) \<Rightarrow> \<lparr>started = Some c, effects = as, raised = Some e\<rparr>
                | (as, None) \<Rightarrow>
                    if job_returncode j \<noteq> 0
                    then \<lparr>started = Some c, effects = as, raised = None\<rparr>
                    else (case cb (Fin 100) of
                            Inl e \<Rightarrow> \<lparr>started = Some c, effects = as, raised = Some e\<rparr>
                          | Inr a \<Rightarrow> \<lparr>started = Some c, effects = as @ [a], raised = None\<rparr>))))"


definition example_job :: job where
  "example_job = \<lparr>job_streams = example_streams,
       job_lines = [''Duration: 00:01:00.00'', ''time=00:00:30.00'', ''time=00:00:15.00''],
       job_returncode = 0, job_creates_output = True\<rparr>"

section \<open>Ranges of floats\<close>

text \<open>A float that is a non-negative number or positive infinity.\<close>

fun float_nonneg :: "pyfloat \<Rightarrow> bool" where
  "float_nonneg (Fin a) = (0 \<le> a)"
| "float_nonneg PInf = True"
| "float_nonneg _ = False"

text \<open>A percentage: a float between 0 and 100.\<close>

definition is_percent :: "pyfloat \<Rightarrow> bool" where
  "is_percent p = (float_le (Fin 0) p \<and> float_le p (Fin 100))"

text \<open>The four captured groups of a match of either pattern: strings of digits.\<close>

definition digit_groups :: "string list \<Rightarrow> bool" where
  "digit_groups gs = (length gs = 4 \<and> (\<forall>g\<in>set gs. list_all is_digit g))"


text \<open>
  The time stamp of a line: the elapsed seconds of its \<open>time=\<close> field, if it has one that
  can be read. \<open>time_stamps\<close> lists the time stamps of a sequence of lines, in order.
\<close>

definition line_stamp :: "variant \<Rightarrow> string \<Rightarrow> pyfloat option" where
  "line_stamp v line =
     (case re_search (time_re v) line of
        None \<Rightarrow> None
      | Some gs \<Rightarrow> (case seconds v gs of Inl e \<Rightarrow> None | Inr x \<Rightarrow> Some x))"

definition time_stamps :: "variant \<Rightarrow> string list \<Rightarrow> pyfloat list" where
  "time_stamps v lines = List.map_filter (line_stamp v) lines"





text \<open>The duration known to the loop is never negative.\<close>

definition duration_ok :: "pyfloat option \<Rightarrow> bool" where
  "duration_ok duration = (case duration of None \<Rightarrow> True | Some d \<Rightarrow> float_nonneg d)"

section \<open>Paths\<close>

text \<open>
  A path is its string, with \<open>/\<close> as the separator, as \<open>rglob\<close> yields it (no trailing
  separator). \<open>path_name\<close> is the final component, \<open>path_suffix\<close> the part of the name from
  its last dot on, empty when the name has no dot, starts with its only dot or ends with
  a dot.
\<close>

definition path_name :: "string \<Rightarrow> string" where
  "path_name p = rev (takeWhile (\<lambda>c. c \<noteq> CHR ''/'') (rev p))"

definition path_parent :: "string \<Rightarrow> string" where
  "path_parent p = rev (dropWhile (\<lambda>c. c \<noteq> CHR ''/'') (rev p))"

definition name_suffix :: "string \<Rightarrow> string" where
  "name_suffix name =
     (let ext = rev (takeWhile (\<lambda>c. c \<noteq> CHR ''.'') (rev name))
      in if CHR ''.'' \<in> set name \<and> ext \<noteq> [] \<and> length ext + 1 < length name
         then CHR ''.'' # ext else [])"

definition path_suffix :: "string \<Rightarrow> string" where
  "path_suffix p = name_suffix (path_name p)"

text \<open>
  \<open>path.with_suffix(suffix)\<close> for a well-formed suffix such as \<open>.mp4\<close>: ValueError for a
  path with an empty name, otherwise the old suffix is replaced (or the new one appended
  when there is none).
\<close>

definition with_suffix :: "string \<Rightarrow> string \<Rightarrow> py_error + string" where
  "with_suffix p suffix =
     (let name = path_name p; old = name_suffix name
      in if name = [] then Inl ValueError
         else Inr (path_parent p @ take (length name - length old) name @ suffix))"

text \<open>
  \<open>str.lower\<close>. Only the letters A to Z are mapped: the lowered text is compared with
  extension names made of ASCII characters, and no other character below 256 is lowered
  to an ASCII character.
\<close>

definition lower_char :: "char \<Rightarrow> char" where
  "lower_char c =
     (case map_of (zip ''ABCDEFGHIJKLMNOPQRSTUVWXYZ'' ''abcdefghijklmnopqrstuvwxyz'') c of
        None \<Rightarrow> c | Some l \<Rightarrow> l)"

definition py_lower :: "string \<Rightarrow> string" where
  "py_lower s = map lower_char s"

definition VIDEO_EXTENSIONS :: "string list" where
  "VIDEO_EXTENSIONS =
     [''.mov'', ''.avi'', ''.mkv'', ''.mpg'', ''.mp4'', ''.wmv'', ''.flv'', ''.webm'',
      ''.vob'', ''.m4v'', ''.ts'', ''.m2ts'', ''.rm'', ''.rmvb'', ''.ogv'']"

section \<open>The batch scheduler of the library\<close>

text \<open>
  \<open>(completed + percent / 100) / total_files * 100\<close>, with ints \<open>completed\<close> and
  \<open>total_files\<close> and a
  float \<open>percent\<close> (the int 100 of the final call divides to the same float).
\<close>

definition overall_percent :: "int \<Rightarrow> pyfloat \<Rightarrow> int \<Rightarrow> py_error + pyfloat" where
  "overall_percent completed percent total_files =
     (case float_div percent (Fin 100) of
        Inl e \<Rightarrow> Inl e
      | Inr q \<Rightarrow>
         (case float_of_int completed of
            Inl e \<Rightarrow> Inl e
          | Inr c \<Rightarrow>
             (case float_of_int total_files of
                Inl e \<Rightarrow> Inl e
              | Inr t \<Rightarrow>
                 (case float_div (float_add c q) t of
                    Inl e \<Rightarrow> Inl e
                  | Inr x \<Rightarrow> Inr (float_mul x (Fin 100))))))"

text \<open>
  The closure \<open>file_progress\<close> of \<open>batch_convert\<close> for the \<open>i\<close>-th file: it returns the
  percentage it was passed and the values it delivered to the overall callback (none
  when no overall callback was supplied).
\<close>

definition file_progress ::
  "bool \<Rightarrow> nat \<Rightarrow> nat \<Rightarrow> pyfloat \<Rightarrow> py_error + (pyfloat \<times> pyfloat list)" where
  "file_progress has_callback i total_files percent =
     (if has_callback then
        (case overall_percent (int i - 1) percent (int total_files) of
           Inl e \<Rightarrow> Inl e
         | Inr overall \<Rightarrow> Inr (percent, [overall]))
      else Inr (percent, []))"

text \<open>
  The file system after a conversion: the encoder, when it was started, may have
  created the output file. Nothing else changes the file system.
\<close>

definition world_after :: "world \<Rightarrow> job \<Rightarrow> string \<Rightarrow> bool \<Rightarrow> world" where
  "world_after w j output_file was_started =
     (if was_started \<and> job_creates_output j
      then w\<lparr>is_file := (is_file w)(output_file := True)\<rparr> else w)"

text \<open>
  The loop of \<open>batch_convert\<close> over the files, from the \<open>i\<close>-th on. \<open>env\<close> tells what the
  external tools do for an input file. The result lists the calls of \<open>convert_file\<close> in
  order; an exception ends the loop, so only the last call can have raised.
\<close>

fun batch_loop ::
  "(string \<Rightarrow> int option) \<Rightarrow> (string \<Rightarrow> job) \<Rightarrow> bool \<Rightarrow> nat \<Rightarrow> world \<Rightarrow> nat \<Rightarrow> string list
   \<Rightarrow> (string \<times> (pyfloat \<times> pyfloat list) run) list" where
  "batch_loop f env has_callback total_files w i [] = []"
| "batch_loop f env has_callback total_files w i (file # files) =
     (case with_suffix file ''.mp4'' of
        Inl e \<Rightarrow> [(file, \<lparr>started = None, effects = [], raised = Some e\<rparr>)]
      | Inr output_file \<Rightarrow>
          let r = convert_file f w (env file) file output_file
                    (Some (file_progress has_callback i total_files))
          in if raised r \<noteq> None then [(file, r)]
             else (file, r) # batch_loop f env has_callback total_files
                                (world_after w (env file) output_file (started r \<noteq> None))
                                (i + 1) files)"

text \<open>
  The files \<open>batch_convert\<close> selects among the paths \<open>rglob\<close> yields, and \<open>batch_convert\<close>
  itself.
\<close>

definition candidates :: "world \<Rightarrow> string list \<Rightarrow> string list" where
  "candidates w entries =
     filter (\<lambda>p. is_file w p \<and> py_lower (path_suffix p) \<in> set VIDEO_EXTENSIONS) entries"

definition batch_convert ::
  "(string \<Rightarrow> int option) \<Rightarrow> (string \<Rightarrow> job) \<Rightarrow> world \<Rightarrow> string list \<Rightarrow> bool
   \<Rightarrow> (string \<times> (pyfloat \<times> pyfloat list) run) list" where
  "batch_convert f env w entries has_callback =
     batch_loop f env has_callback (length (candidates w entries)) w 1 (candidates w entries)"

section \<open>The controller and the scheduler of the GUI\<close>


text \<open>
  What the worker does that can be observed: it starts the encoder, receives a line of
  its diagnostic stream, terminates it, passes a value to the progress callback of
  \<open>convert_file_with_control\<close>, and schedules an update of a file's progress or of the
  overall progress (recorded when it is scheduled, with the file of the iteration that
  schedules it).
\<close>

datatype gevent =
    Popen "string list"
  | LineRead string
  | Terminate
  | Passed pyfloat
  | FileProgress string pyfloat
  | OverallProgress pyfloat

text \<open>
  The state of the worker: how many times it has read each flag, \<open>converted_count\<close>, and
  the events so far, each with the number of reads of \<open>conversion_cancelled\<close> that
  precede it.
\<close>

record gstate =
  c_reads :: nat
  p_reads :: nat
  converted_count :: nat
  events :: "(nat \<times> gevent) list"

definition emit :: "gevent \<Rightarrow> gstate \<Rightarrow> gstate" where
  "emit e st = st\<lparr>events := events st @ [(c_reads st, e)]\<rparr>"













text \<open>
  The values passed to the progress callback of \<open>convert_file_with_control\<close>, in order.
\<close>

definition passed_value :: "nat \<times> gevent \<Rightarrow> pyfloat option" where
  "passed_value x = (case snd x of Passed p \<Rightarrow> Some p | _ \<Rightarrow> None)"

definition passed :: "gstate \<Rightarrow> pyfloat list" where
  "passed st = List.map_filter passed_value (events st)"








section \<open>Facts about rounding\<close>

lemma pos_bitlen_rat:
  assumes "0 < a"
  shows "(2::rat) powi (bitlen a - 1) \<le> of_int a" "of_int a < (2::rat) powi (bitlen a)"
proof -
  from bitlen_bounds[OF assms]
  have 1: "2 ^ nat (bitlen a - 1) \<le> a" and 2: "a < 2 ^ nat (bitlen a)" by auto
  have p: "1 \<le> bitlen a"
    using assms bitlen_eq_zero_iff[of a] bitlen_nonneg[of a] by linarith
  have "(of_int (2 ^ nat (bitlen a - 1)) :: rat) \<le> of_int a"
    using 1 by (simp only: of_int_le_iff)
  then show "(2::rat) powi (bitlen a - 1) \<le> of_int a"
    using p by (simp add: power_int_def)
  have "(of_int a :: rat) < of_int (2 ^ nat (bitlen a))"
    using 2 by (simp only: of_int_less_iff)
  then show "of_int a < (2::rat) powi (bitlen a)"
    using p by (simp add: power_int_def)
qed

lemma expo_bounds:
  assumes "0 < q"
  shows "2 powi (expo q) \<le> q \<and> q < 2 powi (expo q + 1)"
proof -
  obtain a b where ab: "quotient_of q = (a, b)" by (cases "quotient_of q")
  have b: "0 < b" using quotient_of_denom_pos[OF ab] .
  have q: "q = of_int a / of_int b" using quotient_of_div[OF ab] .
  have a: "0 < a" using assms b q by (simp add: zero_less_divide_iff)
  note A = pos_bitlen_rat[OF a] and B = pos_bitlen_rat[OF b]
  let ?e = "bitlen a - bitlen b"
  have bpos: "(0::rat) < of_int b" using b by simp
  have up: "q < 2 powi (?e + 1)"
  proof -
    have "of_int a < (2::rat) powi (bitlen a)" by (rule A)
    also have "\<dots> = 2 powi (?e + 1) * 2 powi (bitlen b - 1)"
      by (simp flip: power_int_add)
    also have "\<dots> \<le> 2 powi (?e + 1) * of_int b"
      using B(1) by (intro mult_left_mono) auto
    finally show ?thesis using bpos by (simp add: q pos_divide_less_eq)
  qed
  have lo: "2 powi (?e - 1) \<le> q"
  proof -
    have "2 powi (?e - 1) * of_int b \<le> 2 powi (?e - 1) * (2::rat) powi (bitlen b)"
      using B(2) by (intro mult_left_mono) auto
    also have "\<dots> = 2 powi (bitlen a - 1)" by (simp flip: power_int_add)
    also have "\<dots> \<le> of_int a" by (rule A)
    finally show ?thesis using bpos by (simp add: q pos_le_divide_eq)
  qed
  show ?thesis
  proof (cases "2 powi ?e \<le> q")
    case True
    then have "expo q = ?e" by (simp add: expo_def ab)
    then show ?thesis using True up by simp
  next
    case False
    then have "expo q = ?e - 1" by (simp add: expo_def ab)
    then show ?thesis using False lo by simp
  qed
qed

lemma pow2_mono: "a \<le> b \<Longrightarrow> (2::rat) powi a \<le> 2 powi b"
  by (rule power_int_increasing) auto

lemma pow2_strict: "(2::rat) powi a < 2 powi b \<Longrightarrow> a < b"
  using pow2_mono[of b a] by (cases "a < b") auto

lemma pow2_pos: "(0::rat) < 2 powi a"
  by simp

lemma pow2_add_eq: "a + b = c \<Longrightarrow> 2 powi a * 2 powi b = (2::rat) powi c"
  by (auto simp: power_int_add)

lemma expo_less:
  assumes "0 < q" "q < 2 powi e"
  shows "expo q < e"
proof -
  have "(2::rat) powi (expo q) < 2 powi e"
    using expo_bounds[OF assms(1)] assms(2) by linarith
  then show ?thesis by (rule pow2_strict)
qed

lemma expo_unique:
  assumes "0 < q" "2 powi e \<le> q" "q < 2 powi (e + 1)"
  shows "expo q = e"
proof -
  have "expo q < e + 1" using assms(1,3) by (rule expo_less)
  moreover have "(2::rat) powi e < 2 powi (expo q + 1)"
    using expo_bounds[OF assms(1)] assms(2) by linarith
  then have "e < expo q + 1" by (rule pow2_strict)
  ultimately show ?thesis by linarith
qed

lemma expo_mono:
  assumes "0 < p" "p \<le> q"
  shows "expo p \<le> expo q"
proof -
  have q: "0 < q" using assms by linarith
  have "p < 2 powi (expo q + 1)" using expo_bounds[OF q] assms(2) by linarith
  from expo_less[OF assms(1) this] show ?thesis by linarith
qed

lemma rhe_of_int: "rhe (of_int n) = n"
  by (simp add: rhe_def)

lemma rhe_mono:
  assumes "x \<le> y"
  shows "rhe x \<le> rhe y"
proof (cases "\<lfloor>x\<rfloor> = \<lfloor>y\<rfloor>")
  case True
  then show ?thesis using assms unfolding rhe_def Let_def by auto
next
  case False
  then have lt: "\<lfloor>x\<rfloor> < \<lfloor>y\<rfloor>" using floor_mono[OF assms] by linarith
  have "rhe x \<le> \<lfloor>x\<rfloor> + 1" unfolding rhe_def Let_def by auto
  moreover have "\<lfloor>y\<rfloor> \<le> rhe y" unfolding rhe_def Let_def by auto
  ultimately show ?thesis using lt by linarith
qed

lemma ulp_pos: "0 < ulp a"
  by (simp add: ulp_def)

lemma rnd_nonneg: "0 \<le> a \<Longrightarrow> 0 \<le> rnd a"
proof -
  assume a: "0 \<le> a"
  have "0 \<le> a / ulp a" using a ulp_pos[of a] by simp
  then have "rhe 0 \<le> rhe (a / ulp a)" by (rule rhe_mono)
  then have "0 \<le> rhe (a / ulp a)" by (simp add: rhe_def)
  then show ?thesis using ulp_pos[of a] by (simp add: rnd_def)
qed

lemma rnd_mono:
  assumes "0 < p" "p \<le> q"
  shows "rnd p \<le> rnd q"
proof -
  have q: "0 < q" using assms by linarith
  let ?ep = "max (expo p) (- 1022)" and ?eq = "max (expo q) (- 1022)"
  have le: "?ep \<le> ?eq" using expo_mono[OF assms] by linarith
  show ?thesis
  proof (cases "?ep = ?eq")
    case True
    then have u: "ulp p = ulp q" by (simp add: ulp_def)
    have "p / ulp q \<le> q / ulp q" using assms(2) ulp_pos[of q] by (simp add: divide_right_mono)
    then have "rhe (p / ulp q) \<le> rhe (q / ulp q)" by (rule rhe_mono)
    then have "(of_int (rhe (p / ulp q)) :: rat) \<le> of_int (rhe (q / ulp q))" by simp
    then show ?thesis using ulp_pos[of q] by (simp add: rnd_def u)
  next
    case False
    then have lt: "?ep < ?eq" using le by linarith
    then have eq: "?eq = expo q" by linarith
    have "p < 2 powi (expo p + 1)" using expo_bounds[OF assms(1)] by simp
    also have "\<dots> \<le> 2 powi (?ep + 1)" by (rule pow2_mono) simp
    finally have "p < 2 powi (?ep + 1)" .
    then have "p / ulp p < 2 powi (?ep + 1) / ulp p"
      using ulp_pos[of p] by (simp add: divide_strict_right_mono)
    also have "2 powi (?ep + 1) / ulp p = (2::rat) powi 53"
      unfolding ulp_def by (simp flip: power_int_diff)
    finally have "p / ulp p \<le> of_int (2 ^ 53)" by (simp add: power_int_def)
    then have "rhe (p / ulp p) \<le> rhe (of_int (2 ^ 53))" by (rule rhe_mono)
    then have "rhe (p / ulp p) \<le> 2 ^ 53" by (simp only: rhe_of_int)
    then have "(of_int (rhe (p / ulp p)) :: rat) \<le> of_int (2 ^ 53)" by (simp only: of_int_le_iff)
    then have "rnd p \<le> of_int (2 ^ 53) * ulp p"
      unfolding rnd_def using ulp_pos[of p] by (intro mult_right_mono) auto
    also have "of_int (2 ^ 53) * ulp p = 2 powi 53 * 2 powi (?ep - 52)"
      by (simp add: ulp_def power_int_def)
    also have "\<dots> = 2 powi (?ep + 1)" by (rule pow2_add_eq) simp
    also have "\<dots> \<le> 2 powi ?eq" using lt by (intro pow2_mono) linarith
    finally have 1: "rnd p \<le> 2 powi ?eq" .
    have "2 powi ?eq \<le> q" using expo_bounds[OF q] eq by simp
    then have "2 powi ?eq / ulp q \<le> q / ulp q"
      using ulp_pos[of q] by (simp add: divide_right_mono)
    moreover have "2 powi ?eq / ulp q = (2::rat) powi 52"
      unfolding ulp_def by (simp flip: power_int_diff)
    ultimately have "of_int (2 ^ 52) \<le> q / ulp q" by (simp add: power_int_def)
    then have "rhe (of_int (2 ^ 52)) \<le> rhe (q / ulp q)" by (rule rhe_mono)
    then have "2 ^ 52 \<le> rhe (q / ulp q)" by (simp only: rhe_of_int)
    then have "(of_int (2 ^ 52) :: rat) \<le> of_int (rhe (q / ulp q))" by (simp only: of_int_le_iff)
    then have "of_int (2 ^ 52) * ulp q \<le> rnd q"
      unfolding rnd_def using ulp_pos[of q] by (intro mult_right_mono) auto
    moreover have "of_int (2 ^ 52) * ulp q = 2 powi 52 * 2 powi (?eq - 52)"
      by (simp add: ulp_def power_int_def)
    moreover have "2 powi 52 * 2 powi (?eq - 52) = (2::rat) powi ?eq"
      by (rule pow2_add_eq) simp
    ultimately have 2: "2 powi ?eq \<le> rnd q" by simp
    from 1 2 show ?thesis by linarith
  qed
qed

text \<open>A number with at most 53 significant bits above the subnormal grid is a double.\<close>

lemma rnd_exact:
  assumes "0 < m" "m < 2 ^ 53" "- 1074 \<le> k"
  shows "rnd (of_int m * 2 powi k) = of_int m * 2 powi k"
proof -
  let ?q = "of_int m * (2::rat) powi k"
  have q: "0 < ?q" using assms(1) by simp
  have "(of_int m :: rat) < of_int (2 ^ 53)" using assms(2) by (simp only: of_int_less_iff)
  then have "(of_int m :: rat) < 2 powi 53" by (simp add: power_int_def)
  then have "?q < 2 powi 53 * 2 powi k" by (intro mult_strict_right_mono) auto
  also have "\<dots> = 2 powi (53 + k)" by (rule pow2_add_eq) simp
  finally have "expo ?q < 53 + k" by (rule expo_less[OF q])
  then have j: "0 \<le> k - (max (expo ?q) (- 1022) - 52)" using assms(3) by linarith
  define j where "j = nat (k - (max (expo ?q) (- 1022) - 52))"
  have pj: "(2::rat) powi k / ulp ?q = 2 powi (int j)"
    unfolding ulp_def j_def using j by (simp flip: power_int_diff)
  have "?q / ulp ?q = of_int m * ((2::rat) powi k / ulp ?q)" by simp
  also have "\<dots> = of_int m * 2 powi (int j)" by (simp only: pj)
  also have "\<dots> = of_int (m * 2 ^ j)" by simp
  finally have "rhe (?q / ulp ?q) = m * 2 ^ j" by (simp only: rhe_of_int)
  then have "rnd ?q = of_int (m * 2 ^ j) * ulp ?q" by (simp add: rnd_def)
  also have "\<dots> = of_int m * (2 powi (int j) * ulp ?q)" by simp
  also have "2 powi (int j) * ulp ?q = (2::rat) powi k"
    unfolding ulp_def j_def using j by (intro pow2_add_eq) simp
  finally show ?thesis .
qed

lemma rnd_exact_int:
  assumes "0 < m" "m < 2 ^ 53"
  shows "rnd (of_int m) = of_int m"
  using rnd_exact[OF assms, of 0] by simp

lemma rnd_pow2: "- 1074 \<le> k \<Longrightarrow> rnd (2 powi k) = 2 powi k"
  using rnd_exact[of 1 k] by simp

lemma fl_pos:
  "0 < q \<Longrightarrow> fl q = (if 2 powi 1024 \<le> rnd q then PInf else Fin (rnd q))"
  by (simp add: fl_def Let_def)

lemma fl_overflow:
  assumes "2 powi 1024 \<le> q"
  shows "fl q = PInf"
proof -
  have q: "0 < q" using assms pow2_pos[of 1024] by linarith
  have "rnd (2 powi 1024) \<le> rnd q" using assms by (intro rnd_mono) auto
  then have "2 powi 1024 \<le> rnd q" using rnd_pow2[of 1024] by simp
  then show ?thesis using q by (simp add: fl_pos)
qed

lemma fl_finite:
  assumes "0 < q" "q \<le> of_int m * 2 powi k" "0 < m" "m < 2 ^ 53" "- 1074 \<le> k"
    "of_int m * 2 powi k < (2::rat) powi 1024"
  shows "fl q = Fin (rnd q)"
proof -
  have "rnd q \<le> rnd (of_int m * 2 powi k)" using assms(1,2) by (rule rnd_mono)
  then have "rnd q \<le> of_int m * 2 powi k" using rnd_exact[OF assms(3,4,5)] by simp
  then show ?thesis using assms(1,6) by (simp add: fl_pos)
qed

lemma expo_four_fifths: "expo (4 / 5) = - 1"
  by (rule expo_unique) (simp_all add: power_int_minus)

lemma ulp_four_fifths: "ulp (4 / 5) = 2 powi (- 53)"
  by (simp add: ulp_def expo_four_fifths)

lemma rhe_above_half:
  assumes "of_int n - 1 / 2 < x" "x < of_int n"
  shows "rhe x = n"
proof -
  have "\<lfloor>x\<rfloor> = n - 1" using assms by (intro floor_unique) auto
  then show ?thesis using assms by (simp add: rhe_def Let_def)
qed

lemma rnd_four_fifths: "rnd (4 / 5) = 3602879701896397 / 4503599627370496"
proof -
  have "rhe (36028797018963968 / 5) = 7205759403792794"
    by (rule rhe_above_half) simp_all
  then show ?thesis by (simp add: rnd_def ulp_four_fifths power_int_minus)
qed

lemma fl_four_fifths: "fl (4 / 5) = Fin (3602879701896397 / 4503599627370496)"
  using rnd_four_fifths by (simp add: fl_pos)

lemma fl_one: "fl 1 = Fin 1"
  using rnd_exact[of 1 0] by (simp add: fl_pos)

lemma fl_three_halves: "fl (3 / 2) = Fin (3 / 2)"
proof -
  have "rnd (of_int 3 * 2 powi (- 1)) = of_int 3 * 2 powi (- 1)" by (rule rnd_exact) auto
  then have "rnd (3 / 2) = 3 / 2" by (simp add: power_int_minus)
  then show ?thesis by (simp add: fl_pos)
qed

lemma rnd_le:
  assumes "0 < q" "q \<le> of_int m * 2 powi k" "0 < m" "m < 2 ^ 53" "- 1074 \<le> k"
  shows "rnd q \<le> of_int m * 2 powi k"
  using rnd_mono[OF assms(1,2)] rnd_exact[OF assms(3,4,5)] by simp

lemma rnd_ge:
  assumes "of_int m * 2 powi k \<le> q" "0 < m" "m < 2 ^ 53" "- 1074 \<le> k"
  shows "of_int m * 2 powi k \<le> rnd q"
proof -
  have "0 < of_int m * (2::rat) powi k" using assms(2) by simp
  from rnd_mono[OF this assms(1)] rnd_exact[OF assms(2,3,4)] show ?thesis by simp
qed

text \<open>A positive product below \<open>3 * 2 ^ 1022\<close> rounds to a finite double.\<close>

lemma fl_below_max:
  assumes "0 < q" "q \<le> 3 * 2 powi 1022"
  shows "fl q = Fin (rnd q)"
proof -
  have "rnd q \<le> of_int 3 * 2 powi 1022" using assms by (intro rnd_le) auto
  moreover have "of_int 3 * 2 powi 1022 < (2::rat) powi 1024" by simp
  ultimately have "rnd q < 2 powi 1024" by linarith
  then show ?thesis using assms(1) by (simp add: fl_pos)
qed

lemma float_of_int_pos:
  assumes "0 < b" "b < 2 ^ 1023"
  shows "float_of_int b = Inr (Fin (rnd (of_int b)))"
proof -
  have "(of_int b :: rat) < of_int (2 ^ 1023)" using assms(2) by (simp only: of_int_less_iff)
  then have "(of_int b :: rat) \<le> 3 * 2 powi 1022" by simp
  then have "fl (of_int b) = Fin (rnd (of_int b))" using assms(1) by (intro fl_below_max) auto
  then show ?thesis by (simp add: float_of_int_def)
qed

lemma rnd_int_bounds:
  assumes "0 < b" "b < 2 ^ 1023"
  shows "rnd (of_int b) \<le> 2 powi 1023" "b < 2 ^ 53 \<Longrightarrow> rnd (of_int b) = of_int b"
    "2 ^ 20 \<le> b \<Longrightarrow> 2 powi 20 \<le> rnd (of_int b)"
proof -
  have "(of_int b :: rat) < of_int (2 ^ 1023)" using assms(2) by (simp only: of_int_less_iff)
  then have "(of_int b :: rat) \<le> of_int 1 * 2 powi 1023" by simp
  then have "rnd (of_int b) \<le> of_int 1 * 2 powi 1023" using assms(1) by (intro rnd_le) auto
  then show "rnd (of_int b) \<le> 2 powi 1023" by simp
next
  assume "b < 2 ^ 53"
  then show "rnd (of_int b) = of_int b" using assms(1) by (intro rnd_exact_int)
next
  assume "2 ^ 20 \<le> b"
  then have "(of_int (2 ^ 20) :: rat) \<le> of_int b" by (simp only: of_int_le_iff)
  then have "of_int 1 * 2 powi 20 \<le> (of_int b :: rat)" by simp
  then have "of_int 1 * 2 powi 20 \<le> rnd (of_int b)" by (intro rnd_ge) auto
  then show "2 powi 20 \<le> rnd (of_int b)" by simp
qed

lemma product_big:
  assumes "2 powi 20 \<le> b'" "b' \<le> 2 powi 1023" "4 / 5 \<le> s'" "s' \<le> 3 / 2"
  shows "fl (b' * s') = Fin (rnd (b' * s'))" "838860 \<le> rnd (b' * s')"
proof -
  have b: "0 < b'" using assms(1) pow2_pos[of 20] by linarith
  have s: "0 < s'" using assms(3) by linarith
  have "b' * s' \<le> 2 powi 1023 * (3 / 2)"
    using assms(2,4) b s by (intro mult_mono) auto
  also have "\<dots> = 3 * 2 powi 1022" by simp
  finally show "fl (b' * s') = Fin (rnd (b' * s'))" using b s by (intro fl_below_max) auto
  have "of_int 838860 * 2 powi 0 \<le> 2 powi 20 * (4 / 5 :: rat)" by simp
  also have "\<dots> \<le> b' * s'" using assms(1,3) b by (intro mult_mono) auto
  finally have "of_int 838860 * 2 powi 0 \<le> rnd (b' * s')" by (intro rnd_ge) auto
  then show "838860 \<le> rnd (b' * s')" by simp
qed

lemma clamp_saturated:
  assumes "512000 \<le> t" "512000 \<le> t'"
  shows "spec_clamp ch t = spec_clamp ch t'"
  using assms by (simp add: spec_clamp_def)

lemma product_eight_tenths:
  assumes "0 < b" "b < 2 ^ 20"
  defines "x \<equiv> of_int b * (3602879701896397 / 4503599627370496 :: rat)"
  shows "fl x = Fin (rnd x)" "\<lfloor>rnd x\<rfloor> = \<lfloor>of_int b * (8 / 10 :: rat)\<rfloor>"
proof -
  define k where "k = (4 * b) div 5"
  have k: "5 * k \<le> 4 * b" "4 * b \<le> 5 * k + 4" "0 \<le> k" "k < 2 ^ 20"
    using assms(1,2) unfolding k_def by simp_all
  have fk: "\<lfloor>of_int b * (8 / 10 :: rat)\<rfloor> = k"
  proof -
    have "of_int b * (8 / 10 :: rat) = of_int (4 * b) / of_int 5" by simp
    then show ?thesis unfolding k_def by (simp only: floor_divide_of_int_eq)
  qed
  have xpos: "0 < x" using assms(1) by (simp add: x_def)
  have blt: "(of_int b :: rat) < 1048576"
    using assms(2) of_int_less_iff[of b "2 ^ 20", where ?'a = rat] by simp
  have "(of_int (4 * b) :: rat) \<le> of_int (5 * k + 4)" using k(2) by (simp only: of_int_le_iff)
  then have b4: "4 * (of_int b :: rat) \<le> 5 * of_int k + 4" by simp
  have "(of_int (5 * k) :: rat) \<le> of_int (4 * b)" using k(1) by (simp only: of_int_le_iff)
  then have b5: "5 * (of_int k :: rat) \<le> 4 * of_int b" by simp
  have klt: "(of_int k :: rat) < 1048576"
    using k(4) of_int_less_iff[of k "2 ^ 20", where ?'a = rat] by simp
  have up: "x \<le> of_int (8 * k + 7) * 2 powi (- 3)"
    using b4 blt unfolding x_def by (simp add: power_int_minus field_simps)
  have "rnd x \<le> of_int (8 * k + 7) * 2 powi (- 3)"
    using xpos up k(3,4) by (intro rnd_le) auto
  then have rup: "rnd x < of_int k + 1" by (simp add: power_int_minus field_simps)
  have lo: "of_int k \<le> x" using b5 assms(1) unfolding x_def by (simp add: field_simps)
  have rlo: "of_int k \<le> rnd x"
  proof (cases "k = 0")
    case True
    then show ?thesis using rnd_nonneg[of x] xpos by simp
  next
    case False
    then have "0 < k" using k(3) by linarith
    moreover have "of_int k * 2 powi 0 \<le> x" using lo by simp
    ultimately have "of_int k * 2 powi 0 \<le> rnd x" using k(4) by (intro rnd_ge) auto
    then show ?thesis by simp
  qed
  from rlo rup have "\<lfloor>rnd x\<rfloor> = k" by (intro floor_unique) auto
  then show "\<lfloor>rnd x\<rfloor> = \<lfloor>of_int b * (8 / 10 :: rat)\<rfloor>" using fk by simp
  have "rnd x < 2 powi 1024" using rup klt by simp
  then show "fl x = Fin (rnd x)" using xpos by (simp add: fl_pos)
qed

lemma product_three_halves:
  assumes "0 < b" "b < 2 ^ 20"
  shows "fl (of_int b * (3 / 2)) = Fin (of_int b * (3 / 2))"
proof -
  have e: "of_int b * (3 / 2 :: rat) = of_int (3 * b) * 2 powi (- 1)"
    by (simp add: power_int_minus)
  have "rnd (of_int (3 * b) * 2 powi (- 1)) = of_int (3 * b) * 2 powi (- 1)"
    using assms by (intro rnd_exact) auto
  then have r: "rnd (of_int b * (3 / 2)) = of_int b * (3 / 2)" by (simp only: e)
  have "(of_int b :: rat) < 1048576"
    using assms(2) of_int_less_iff[of b "2 ^ 20", where ?'a = rat] by simp
  then have "of_int b * (3 / 2 :: rat) < 2 powi 1024" by simp
  then show ?thesis using assms(1) r by (simp add: fl_pos)
qed

lemma floor_scaled_big:
  assumes "2 ^ 20 \<le> b" "4 / 5 \<le> s"
  shows "512000 \<le> \<lfloor>of_int b * (s::rat)\<rfloor>"
proof -
  have "(of_int (2 ^ 20) :: rat) \<le> of_int b" using assms(1) by (simp only: of_int_le_iff)
  then have b: "(1048576 :: rat) \<le> of_int b" by simp
  have "of_int 512000 \<le> (1048576 :: rat) * (4 / 5)" by simp
  also have "\<dots> \<le> of_int b * s" using b assms(2) by (intro mult_mono) auto
  finally show ?thesis by (simp only: le_floor_iff)
qed

lemma scaled_target:
  assumes "0 < b" "b < 2 ^ 1023"
    and "(s', s) = (1, 1) \<or> (s', s) = (3602879701896397 / 4503599627370496, 8 / 10)
         \<or> (s', s) = (3 / 2, 15 / 10)"
  shows "\<exists>t. fl (rnd (of_int b) * s') = Fin t \<and> 0 \<le> t
             \<and> spec_clamp ch \<lfloor>t\<rfloor> = spec_clamp ch \<lfloor>of_int b * (s::rat)\<rfloor>"
proof (cases "b < 2 ^ 20")
  case True
  then have "b < 2 ^ 53" by simp
  then have rb: "rnd (of_int b) = of_int b" using rnd_int_bounds(2)[OF assms(1,2)] by simp
  from assms(3) consider
      "s' = 1" "s = 1"
    | "s' = 3602879701896397 / 4503599627370496" "s = 8 / 10"
    | "s' = 3 / 2" "s = 15 / 10"
    by auto
  then show ?thesis
  proof cases
    case 1
    have "fl (of_int b) = Fin (rnd (of_int b))"
      using assms(1) rnd_int_bounds(1)[OF assms(1,2)] by (simp add: fl_pos)
    then show ?thesis using 1 rb assms(1) by simp
  next
    case 2
    have "0 \<le> rnd (of_int b * s')" using assms(1) 2 by (intro rnd_nonneg) simp
    then show ?thesis
      unfolding rb 2 using product_eight_tenths[OF assms(1) True] by simp
  next
    case 3
    show ?thesis
      unfolding rb 3 using product_three_halves[OF assms(1) True] assms(1)
      by (intro exI[of _ "of_int b * (3 / 2)"]) simp
  qed
next
  case False
  then have big: "2 ^ 20 \<le> b" by simp
  have s: "4 / 5 \<le> s'" "s' \<le> 3 / 2" "4 / 5 \<le> s" using assms(3) by auto
  note P = product_big[OF rnd_int_bounds(3)[OF assms(1,2) big] rnd_int_bounds(1)[OF assms(1,2)] s(1,2)]
  have "of_int 512000 \<le> rnd (rnd (of_int b) * s')" using P(2) by simp
  then have "512000 \<le> \<lfloor>rnd (rnd (of_int b) * s')\<rfloor>" by (simp only: le_floor_iff)
  then have "spec_clamp ch \<lfloor>rnd (rnd (of_int b) * s')\<rfloor> = spec_clamp ch \<lfloor>of_int b * s\<rfloor>"
    using floor_scaled_big[OF big s(3)] by (rule clamp_saturated)
  then show ?thesis using P by auto
qed

lemma py_in_str: "py_in (PStr c) L = (c \<in> set L)"
  by (induction L) (auto simp: py_in_def)

section \<open>Exact values and the order of rounded results\<close>

lemma fl_zero: "fl 0 = Fin 0"
  by (simp add: fl_def)





lemma fl_three_quarters: "fl (3 / 4) = Fin (3 / 4)"
  using rnd_exact[of 3 "- 2"] by (simp add: fl_pos power_int_minus)

lemma fl_nonneg: "0 \<le> q \<Longrightarrow> float_nonneg (fl q)"
  using rnd_nonneg[of q] by (cases "q = 0") (auto simp: fl_def Let_def)

lemma fl_mono:
  assumes "0 \<le> p" "p \<le> q"
  shows "float_le (fl p) (fl q)"
proof (cases "p = 0")
  case True
  have "float_nonneg (fl q)" using assms by (intro fl_nonneg) simp
  then show ?thesis unfolding True fl_zero by (cases "fl q") auto
next
  case False
  then have p: "0 < p" and q: "0 < q" using assms by auto
  from rnd_mono[OF p assms(2)] show ?thesis by (simp add: fl_pos p q)
qed

lemma float_le_refl_nonneg: "float_nonneg x \<Longrightarrow> float_le x x"
  by (cases x) auto

section \<open>The bitrate normaliser meets its specification\<close>

lemma equivalent_aac_bitrate_exact:
  assumes "case bitrate of None \<Rightarrow> True | Some b \<Rightarrow> b < 2 ^ 1023"
  shows "equivalent_aac_bitrate (PStr codec) bitrate (PInt channels)
         = Inr (spec_target_bitrate codec bitrate channels)"
proof (cases bitrate)
  case None
  then show ?thesis by (simp add: equivalent_aac_bitrate_def spec_target_bitrate_def)
next
  case (Some b)
  show ?thesis
  proof (cases "b \<le> 0")
    case True
    then show ?thesis using Some
      by (simp add: equivalent_aac_bitrate_def spec_target_bitrate_def)
  next
    case False
    then have b: "0 < b" "b < 2 ^ 1023" using assms Some by simp_all
    define s' :: rat where "s' = (if codec \<in> set EFFICIENT_CODECS then 1
       else if codec \<in> set LEGACY_LOSSY_CODECS then 3602879701896397 / 4503599627370496
       else if codec \<in> set LOSSLESS_CODECS then 3 / 2 else 1)"
    have sc: "(if py_in (PStr codec) EFFICIENT_CODECS then fl 1
               else if py_in (PStr codec) LEGACY_LOSSY_CODECS then fl (8 / 10)
               else if py_in (PStr codec) LOSSLESS_CODECS then fl (15 / 10)
               else fl 1) = Fin s'"
      by (simp add: s'_def py_in_str fl_one fl_four_fifths fl_three_halves)
    have pairs: "(s', spec_scale codec) = (1, 1)
        \<or> (s', spec_scale codec) = (3602879701896397 / 4503599627370496, 8 / 10)
        \<or> (s', spec_scale codec) = (3 / 2, 15 / 10)"
      by (simp add: s'_def spec_scale_def EFFICIENT_CODECS_def LEGACY_LOSSY_CODECS_def
          LOSSLESS_CODECS_def)
    from scaled_target[OF b pairs, of channels] obtain t where
      t: "fl (rnd (of_int b) * s') = Fin t" "0 \<le> t"
        "spec_clamp channels \<lfloor>t\<rfloor> = spec_clamp channels \<lfloor>of_int b * spec_scale codec\<rfloor>"
      by blast
    have conv: "float_of_int b = Inr (Fin (rnd (of_int b)))"
      using b by (rule float_of_int_pos)
    have "equivalent_aac_bitrate (PStr codec) bitrate (PInt channels)
          = Inr (spec_clamp channels \<lfloor>t\<rfloor>)"
      unfolding equivalent_aac_bitrate_def Let_def sc
      using False Some t(2) by (simp add: conv t(1) spec_clamp_def)
    then show ?thesis using False Some t(3) by (simp add: spec_target_bitrate_def)
  qed
qed

text \<open>
  Claim C2, amended. For every codec name, every channel count and every source bitrate
  that is missing or below \<open>2 ^ 1023\<close>, \<open>equivalent_aac_bitrate\<close> returns the value the
  specification describes: the channel-based default (128000, 320000, 512000) for a
  missing or non-positive bitrate, and otherwise the exact product of the bitrate and
  the scale of the codec family (1 for aac, opus, vorbis and unknown codecs, 0.8 for
  the legacy lossy codecs, 1.5 for flac, alac, pcm_s16le, pcm_s24le, pcm_s32le and mlp),
  truncated and clamped per channel count. The rounding of the float product never
  shows in the result.
\<close>

theorem equivalent_aac_bitrate_spec:
  assumes "case bitrate of None \<Rightarrow> True | Some b \<Rightarrow> b < 2 ^ 1023"
  shows "equivalent_aac_bitrate (PStr codec) bitrate (PInt channels)
         = Inr (spec_target_bitrate codec bitrate channels)"
  using assms by (rule equivalent_aac_bitrate_exact)

theorem equivalent_aac_bitrate_spec_witness:
  "equivalent_aac_bitrate (PStr ''mp3'') (Some 200000) (PInt 2) = Inr 160000
   \<and> equivalent_aac_bitrate (PStr ''flac'') (Some 1000000) (PInt 2) = Inr 320000
   \<and> equivalent_aac_bitrate (PStr ''aac'') None (PInt 1) = Inr 128000"
  using equivalent_aac_bitrate_spec[of "Some 200000" "''mp3''" 2]
    equivalent_aac_bitrate_spec[of "Some 1000000" "''flac''" 2]
    equivalent_aac_bitrate_spec[of None "''aac''" 1]
  by (simp add: spec_target_bitrate_def spec_scale_def spec_clamp_def)

text \<open>
  The claim as stated, for every source bitrate, fails: a bitrate of \<open>2 ^ 1024\<close> is too
  large to convert to a float, and \<open>bitrate * scale\<close> raises OverflowError.
\<close>

theorem equivalent_aac_bitrate_overflow:
  "equivalent_aac_bitrate (PStr ''aac'') (Some (2 ^ 1024)) (PInt 2) = Inl OverflowError"
proof -
  have "fl (of_int (2 ^ 1024)) = PInf" by (rule fl_overflow) simp
  then have "float_of_int (2 ^ 1024) = Inl OverflowError" by (simp add: float_of_int_def)
  then show ?thesis by (simp add: equivalent_aac_bitrate_def)
qed

section \<open>Facts about the command planner\<close>

lemma py_eq_str: "py_eq v (PStr s) = (v = PStr s)"
  by (cases v) auto

lemma stream_get_eq_str:
  "(stream_get stream k d = PStr s) = (case stream k of None \<Rightarrow> d = PStr s | Some v \<Rightarrow> v = PStr s)"
  by (simp add: stream_get_def split: option.splits)

lemma video_not_audio: "is_video stream \<Longrightarrow> \<not> is_audio stream"
  by (simp add: is_video_def is_audio_def)

lemma stream_step_video:
  assumes "is_video stream"
  shows "stream_step f crf preset st stream =
         Inr (st\<lparr>cmd := cmd st @ map_directive stream @ [''-c:v:'' @ str_nat (v_map_idx st)]
                           @ spec_video_action stream crf preset,
                 v_map_idx := v_map_idx st + 1\<rparr>)"
  using assms
  by (simp add: stream_step_def is_video_def Let_def py_eq_str stream_get_def
      map_directive_def spec_video_action_def split: option.splits)

lemma stream_step_audio:
  assumes "is_audio stream"
  shows "stream_step f crf preset st stream =
         (case equivalent_aac_bitrate (stream_get stream ''codec_name'' (PStr []))
                 (Some (bitrate_of f stream)) (stream_get stream ''channels'' (PInt 2)) of
            Inl e \<Rightarrow> Inl e
          | Inr target \<Rightarrow>
              Inr (st\<lparr>cmd := cmd st @ map_directive stream @ [''-c:a:'' @ str_nat (a_map_idx st)]
                                @ spec_audio_action stream (bitrate_of f stream) target (a_map_idx st),
                      a_map_idx := a_map_idx st + 1, has_audio := True\<rparr>))"
proof -
  have t: "stream_get stream ''codec_type'' PNone = PStr ''audio''"
    using assms by (simp add: is_audio_def stream_get_def)
  have c: "(stream_get stream ''codec_name'' (PStr []) = PStr ''aac'')
           = (stream ''codec_name'' = Some (PStr ''aac''))"
    by (simp add: stream_get_def split: option.splits)
  show ?thesis
    unfolding stream_step_def Let_def t py_eq_str
    by (simp add: c map_directive_def spec_audio_action_def split: sum.splits)
qed

lemma stream_step_other:
  assumes "\<not> is_video stream" "\<not> is_audio stream"
  shows "stream_step f crf preset st stream = Inr st"
proof -
  have "stream_get stream ''codec_type'' PNone \<noteq> PStr ''video''"
    using assms(1) by (auto simp: is_video_def stream_get_def split: option.splits)
  moreover have "stream_get stream ''codec_type'' PNone \<noteq> PStr ''audio''"
    using assms(2) by (auto simp: is_audio_def stream_get_def split: option.splits)
  ultimately show ?thesis
    unfolding stream_step_def Let_def py_eq_str by simp
qed

lemma stream_loop_plan:
  "(case stream_loop f crf preset st streams of Inl e \<Rightarrow> Inl e | Inr st' \<Rightarrow> Inr (cmd st'))
   = (case spec_plan f crf preset (v_map_idx st) (a_map_idx st) streams of
        Inl e \<Rightarrow> Inl e
      | Inr plan \<Rightarrow> Inr (cmd st @ plan))"
proof (induction streams arbitrary: st)
  case Nil
  then show ?case by simp
next
  case (Cons stream streams)
  consider (video) "is_video stream" | (audio) "is_audio stream"
    | (other) "\<not> is_video stream" "\<not> is_audio stream" by blast
  then show ?case
  proof cases
    case video
    let ?st = "st\<lparr>cmd := cmd st @ map_directive stream @ [''-c:v:'' @ str_nat (v_map_idx st)]
                           @ spec_video_action stream crf preset,
                    v_map_idx := v_map_idx st + 1\<rparr>"
    show ?thesis
      using Cons.IH[of ?st] video
      by (simp add: stream_step_video split: sum.splits)
  next
    case audio
    then have nv: "\<not> is_video stream" using video_not_audio by blast
    show ?thesis
    proof (cases "equivalent_aac_bitrate (stream_get stream ''codec_name'' (PStr []))
            (Some (bitrate_of f stream)) (stream_get stream ''channels'' (PInt 2))")
      case (Inl e)
      then show ?thesis using audio nv by (simp add: stream_step_audio)
    next
      case (Inr target)
      let ?st = "st\<lparr>cmd := cmd st @ map_directive stream @ [''-c:a:'' @ str_nat (a_map_idx st)]
                          @ spec_audio_action stream (bitrate_of f stream) target (a_map_idx st),
                      a_map_idx := a_map_idx st + 1, has_audio := True\<rparr>"
      show ?thesis
        using Cons.IH[of ?st] audio nv Inr
        by (simp add: stream_step_audio split: sum.splits)
    qed
  next
    case other
    with Cons.IH[of st] show ?thesis
      by (simp add: stream_step_other)
  qed
qed

lemma build_ffmpeg_command_plan:
  "build_ffmpeg_command f streams input_file output_file crf preset
   = (case spec_plan f crf preset 0 0 streams of
        Inl e \<Rightarrow> Inl e
      | Inr plan \<Rightarrow>
          Inr ([''ffmpeg'', ''-y'', ''-i'', input_file] @ plan
               @ [''-movflags'', ''+faststart'', output_file]))"
  using stream_loop_plan[of f crf preset
      "\<lparr>cmd = [''ffmpeg'', ''-y'', ''-i'', input_file],
        v_map_idx = 0, a_map_idx = 0, has_audio = False\<rparr>" streams]
  by (simp add: build_ffmpeg_command_def split: sum.splits)

text \<open>The normaliser has a target for every bitrate below \<open>2 ^ 1023\<close>.\<close>

lemma equivalent_aac_bitrate_total:
  assumes "b < 2 ^ 1023"
  shows "\<exists>t. equivalent_aac_bitrate codec (Some b) channels = Inr t"
proof (cases "b \<le> 0")
  case True
  then show ?thesis by (simp add: equivalent_aac_bitrate_def)
next
  case False
  then have b: "0 < b" "b < 2 ^ 1023" using assms by simp_all
  define s' :: rat where "s' = (if py_in codec EFFICIENT_CODECS then 1
     else if py_in codec LEGACY_LOSSY_CODECS then 3602879701896397 / 4503599627370496
     else if py_in codec LOSSLESS_CODECS then 3 / 2 else 1)"
  define s :: rat where "s = (if py_in codec EFFICIENT_CODECS then 1
     else if py_in codec LEGACY_LOSSY_CODECS then 8 / 10
     else if py_in codec LOSSLESS_CODECS then 15 / 10 else 1)"
  have sc: "(if py_in codec EFFICIENT_CODECS then fl 1
             else if py_in codec LEGACY_LOSSY_CODECS then fl (8 / 10)
             else if py_in codec LOSSLESS_CODECS then fl (15 / 10)
             else fl 1) = Fin s'"
    by (simp add: s'_def fl_one fl_four_fifths fl_three_halves)
  have pairs: "(s', s) = (1, 1)
      \<or> (s', s) = (3602879701896397 / 4503599627370496, 8 / 10)
      \<or> (s', s) = (3 / 2, 15 / 10)"
    by (simp add: s'_def s_def)
  from scaled_target[OF b pairs, of 2] obtain t where
    t: "fl (rnd (of_int b) * s') = Fin t" "0 \<le> t" by blast
  have conv: "float_of_int b = Inr (Fin (rnd (of_int b)))"
    using b by (rule float_of_int_pos)
  show ?thesis
    unfolding equivalent_aac_bitrate_def Let_def sc
    using False t(2) by (simp add: conv t(1))
qed

lemma spec_plan_total:
  "\<forall>stream\<in>set streams. is_audio stream \<longrightarrow> bitrate_of f stream < 2 ^ 1023 \<Longrightarrow>
   \<exists>plan. spec_plan f crf preset v a streams = Inr plan"
proof (induction streams arbitrary: v a)
  case Nil
  then show ?case by simp
next
  case (Cons stream streams)
  have rest: "\<exists>plan. spec_plan f crf preset v' a' streams = Inr plan" for v' a'
    using Cons by simp
  show ?case
  proof (cases "is_audio stream")
    case True
    then have "bitrate_of f stream < 2 ^ 1023" using Cons.prems by simp
    from equivalent_aac_bitrate_total[OF this] obtain t where
      "equivalent_aac_bitrate (stream_get stream ''codec_name'' (PStr []))
         (Some (bitrate_of f stream)) (stream_get stream ''channels'' (PInt 2)) = Inr t"
      by blast
    moreover obtain plan where "spec_plan f crf preset v (a + 1) streams = Inr plan"
      using rest by blast
    ultimately show ?thesis using True video_not_audio[of stream] by auto
  next
    case False
    obtain p1 where 1: "spec_plan f crf preset (v + 1) a streams = Inr p1" using rest by blast
    obtain p2 where 2: "spec_plan f crf preset v a streams = Inr p2" using rest by blast
    show ?thesis using False 1 2 by simp
  qed
qed








section \<open>The stream prober: claim C7\<close>

text \<open>
  Claim C7 says that \<open>get_streams\<close> never throws and returns the empty sequence for
  output it cannot read. The \<open>try\<close> of \<open>get_streams\<close> catches JSONDecodeError only, and it
  encloses the \<open>.get\<close> call: for the output \<open>[]\<close>, which is valid JSON and decodes to a
  list, \<open>.get\<close> raises AttributeError and \<open>get_streams\<close> raises it.
\<close>

theorem get_streams_raises_on_array:
  "get_streams (Inr (JArr [])) = Inl AttributeError"
  by simp

section \<open>The command planner: claims C3 and C9\<close>

lemma decimal_int_examples:
  "decimal_int ''200000'' = Some 200000" "decimal_int ''400000'' = Some 400000"
  by (simp_all add: decimal_int_def is_digit_def int_of_digits_def digit_val_def)

lemma example_targets:
  "equivalent_aac_bitrate (PStr ''mp3'') (Some 200000) (PInt 2) = Inr 160000"
  "equivalent_aac_bitrate (PStr ''aac'') (Some 400000) (PInt 2) = Inr 320000"
  using equivalent_aac_bitrate_exact[of "Some 200000" "''mp3''" 2]
    equivalent_aac_bitrate_exact[of "Some 400000" "''aac''" 2]
  by (simp_all add: spec_target_bitrate_def spec_scale_def spec_clamp_def)

lemma example_build:
  "build_ffmpeg_command decimal_int example_streams ''in.mkv'' ''in.mp4'' 18 ''slow''
   = Inr example_command"
  by (simp add: build_ffmpeg_command_def example_streams_def example_command_def
      stream_step_def stream_get_def bitrate_of_def decimal_int_examples example_targets
      str_nat.simps str_int_def Let_def)

text \<open>
  Claim C3. \<open>build_ffmpeg_command\<close> builds a command exactly when the planner as the
  specification words it (\<open>spec_plan\<close>) has a plan, and the arguments between the input
  and the output flags are then that plan: every video stream is copied if and only if
  its codec_name is h264 and is otherwise transcoded to libx264 with the crf and preset
  options; every audio stream is copied if and only if its codec_name is aac and its
  source bitrate is at least the target of \<open>equivalent_aac_bitrate\<close>, and is otherwise
  transcoded to aac at that target with the aac_low profile. There is a plan, with a
  decision for every video and audio stream, whenever the bitrate of every audio stream
  is below \<open>2 ^ 1023\<close>.
\<close>

theorem build_ffmpeg_command_decisions:
  "build_ffmpeg_command int_of_str streams input_file output_file crf preset
   = (case spec_plan int_of_str crf preset 0 0 streams of
        Inl e \<Rightarrow> Inl e
      | Inr plan \<Rightarrow>
          Inr ([''ffmpeg'', ''-y'', ''-i'', input_file] @ plan
               @ [''-movflags'', ''+faststart'', output_file]))
   \<and> ((\<forall>stream\<in>set streams. is_audio stream \<longrightarrow> bitrate_of int_of_str stream < 2 ^ 1023)
        \<longrightarrow> (\<exists>plan. spec_plan int_of_str crf preset 0 0 streams = Inr plan))"
proof
  show "build_ffmpeg_command int_of_str streams input_file output_file crf preset
   = (case spec_plan int_of_str crf preset 0 0 streams of
        Inl e \<Rightarrow> Inl e
      | Inr plan \<Rightarrow>
          Inr ([''ffmpeg'', ''-y'', ''-i'', input_file] @ plan
               @ [''-movflags'', ''+faststart'', output_file]))"
    by (rule build_ffmpeg_command_plan)
next
  show "(\<forall>stream\<in>set streams. is_audio stream \<longrightarrow> bitrate_of int_of_str stream < 2 ^ 1023)
        \<longrightarrow> (\<exists>plan. spec_plan int_of_str crf preset 0 0 streams = Inr plan)"
    using spec_plan_total by blast
qed

text \<open>
  The example: the plan copies the h264 and the aac stream (400000 is at least the
  target 320000), transcodes the hevc and the mp3 stream and drops the subtitles.
\<close>

theorem build_ffmpeg_command_decisions_witness:
  "spec_plan decimal_int 18 ''slow'' 0 0 example_streams
     = Inr [''-map'', ''0:0'', ''-c:v:0'', ''libx264'', ''-crf'', ''18'', ''-preset'', ''slow'',
            ''-map'', ''0:1'', ''-c:a:0'', ''aac'', ''-profile:a'', ''aac_low'', ''-b:a:0'', ''160000'',
            ''-map'', ''0:3'', ''-c:v:1'', ''copy'',
            ''-map'', ''0:4'', ''-c:a:1'', ''copy'']
   \<and> build_ffmpeg_command decimal_int example_streams ''in.mkv'' ''in.mp4'' 18 ''slow''
     = Inr example_command"
proof -
  have b: "\<forall>stream\<in>set example_streams.
             is_audio stream \<longrightarrow> bitrate_of decimal_int stream < 2 ^ 1023"
    by (simp add: example_streams_def is_audio_def bitrate_of_def stream_get_def
        decimal_int_examples)
  from build_ffmpeg_command_decisions[of decimal_int example_streams "''in.mkv''" "''in.mp4''"
      18 "''slow''", THEN conjunct2, THEN mp, OF b]
  obtain plan where p: "spec_plan decimal_int 18 ''slow'' 0 0 example_streams = Inr plan"
    by blast
  from build_ffmpeg_command_decisions[of decimal_int example_streams "''in.mkv''" "''in.mp4''"
      18 "''slow''", THEN conjunct1] p example_build
  have "example_command = [''ffmpeg'', ''-y'', ''-i'', ''in.mkv''] @ plan
               @ [''-movflags'', ''+faststart'', ''in.mp4'']"
    by simp
  then have "plan = [''-map'', ''0:0'', ''-c:v:0'', ''libx264'', ''-crf'', ''18'', ''-preset'', ''slow'',
            ''-map'', ''0:1'', ''-c:a:0'', ''aac'', ''-profile:a'', ''aac_low'', ''-b:a:0'', ''160000'',
            ''-map'', ''0:3'', ''-c:v:1'', ''copy'',
            ''-map'', ''0:4'', ''-c:a:1'', ''copy'']"
    by (simp add: example_command_def)
  with p example_build show ?thesis by simp
qed



section \<open>Facts about the regular expressions\<close>

lemma starts_with_append: "starts_with pre (pre @ s)"
  by (induction pre) auto

lemma starts_with_iff: "starts_with pre s = (\<exists>t. s = pre @ t)"
proof (induction pre s rule: starts_with.induct)
qed auto

lemma re_match_literal_prefix:
  "re_match (map Lit pre @ p) s = Some gs \<Longrightarrow> starts_with pre s"
proof (induction pre arbitrary: s)
  case Nil
  then show ?case by simp
next
  case (Cons c pre)
  then show ?case by (cases s) (auto split: if_splits)
qed

lemma re_search_literal_prefix:
  "re_search (map Lit pre @ p) s = Some gs \<Longrightarrow> pre \<noteq> [] \<Longrightarrow> py_contains pre s"
proof (induction s)
  case Nil
  then show ?case using re_match_literal_prefix[of pre p "[]" gs] by (cases pre) auto
next
  case (Cons x xs)
  then show ?case
    using re_match_literal_prefix[of pre p "x # xs" gs]
    by (cases "re_match (map Lit pre @ p) (x # xs)") auto
qed

lemma duration_match_contains:
  assumes "re_search (duration_re v) line = Some gs"
  shows "py_contains ''Duration'' line"
proof -
  have e: "duration_re v = map Lit ''Duration'' @ (map Lit '': ''
     @ [Digits, Lit CHR '':'', Digits, Lit CHR '':'', Digits, dot_atom v, Digits])"
    by (simp add: duration_re_def)
  show ?thesis
    by (rule re_search_literal_prefix[OF assms[unfolded e]]) simp
qed


text \<open>The groups of a match are non-empty strings of digits, one per group of the pattern.\<close>

lemma re_match_groups:
  "re_match p s = Some gs \<Longrightarrow>
     length gs = length (filter (\<lambda>a. a = Digits) p) \<and> (\<forall>g\<in>set gs. g \<noteq> [] \<and> list_all is_digit g)"
  "re_digits p s k = Some gs \<Longrightarrow> k \<le> length (takeWhile is_digit s) \<Longrightarrow>
     length gs = Suc (length (filter (\<lambda>a. a = Digits) p)) \<and> (\<forall>g\<in>set gs. g \<noteq> [] \<and> list_all is_digit g)"
proof (induction p s and p s k arbitrary: gs and gs rule: re_match_re_digits.induct)
  case (1 s)
  then show ?case by simp
next
  case (2 c p s)
  then show ?case by (cases s) (auto split: if_splits)
next
  case (3 p s)
  then show ?case by (cases s) (auto split: if_splits)
next
  case (4 p s)
  then show ?case by simp
next
  case (5 p s)
  then show ?case by simp
next
  case (6 p s k)
  show ?case
  proof (cases "re_match p (drop (Suc k) s)")
    case None
    with 6 show ?thesis by simp
  next
    case (Some gs')
    with 6 have gs: "gs = take (Suc k) s # gs'" by simp
    have "take (Suc k) s = take (Suc k) (takeWhile is_digit s)"
      using "6.prems"(2) by (metis takeWhile_dropWhile_id take_append append.right_neutral length_take min.absorb2 diff_is_0_eq take_0 take_all_iff)
    then have d: "list_all is_digit (take (Suc k) s)"
      by (metis in_set_takeD list_all_iff set_takeWhileD)
    have ne: "take (Suc k) s \<noteq> []" using "6.prems"(2) by (cases s) auto
    from "6.IH"(1)[OF Some] d ne gs show ?thesis by simp
  qed
qed

section \<open>Facts about the time stamps\<close>

lemma digit_val_range: "is_digit c \<Longrightarrow> 0 \<le> digit_val c \<and> digit_val c \<le> 9"
  by (auto simp: is_digit_def digit_val_def)

lemma foldl_digits_bounds:
  "list_all is_digit g \<Longrightarrow> 0 \<le> a \<Longrightarrow>
   0 \<le> foldl (\<lambda>a c. 10 * a + digit_val c) a g
   \<and> foldl (\<lambda>a c. 10 * a + digit_val c) a g < (a + 1) * 10 ^ length g"
proof (induction g arbitrary: a)
  case Nil
  then show ?case by simp
next
  case (Cons c g)
  then have d: "0 \<le> digit_val c" "digit_val c \<le> 9" using digit_val_range[of c] by auto
  have g: "list_all is_digit g" using Cons.prems(1) by simp
  have a': "0 \<le> 10 * a + digit_val c" using d Cons.prems(2) by linarith
  from Cons.IH[OF g a'] have
    1: "0 \<le> foldl (\<lambda>a c. 10 * a + digit_val c) (10 * a + digit_val c) g"
    and 2: "foldl (\<lambda>a c. 10 * a + digit_val c) (10 * a + digit_val c) g
            < (10 * a + digit_val c + 1) * 10 ^ length g" by auto
  have "(10 * a + digit_val c + 1) * 10 ^ length g \<le> (10 * a + 10) * (10::int) ^ length g"
    using d by (intro mult_right_mono) auto
  also have "\<dots> = (a + 1) * 10 ^ length (c # g)" by (simp add: algebra_simps)
  finally have 3: "(10 * a + digit_val c + 1) * 10 ^ length g \<le> (a + 1) * 10 ^ length (c # g)" .
  have "foldl (\<lambda>a c. 10 * a + digit_val c) a (c # g)
        = foldl (\<lambda>a c. 10 * a + digit_val c) (10 * a + digit_val c) g" by simp
  then show ?case using 1 less_le_trans[OF 2 3] by (simp only:) 
qed

lemma int_of_digits_bounds:
  assumes "list_all is_digit g"
  shows "0 \<le> int_of_digits g" "int_of_digits g < 10 ^ length g"
  using foldl_digits_bounds[OF assms, of 0] by (simp_all add: int_of_digits_def)

lemma fl_nonneg_cases:
  assumes "0 \<le> q"
  obtains r where "fl q = Fin r" "0 \<le> r" | "fl q = PInf"
  using fl_nonneg[OF assms] by (cases "fl q") auto

lemma fl_small_finite:
  assumes "0 \<le> q" "q \<le> 3 * 2 powi 1022"
  shows "\<exists>r. fl q = Fin r \<and> 0 \<le> r"
proof (cases "q = 0")
  case True
  then show ?thesis by (simp add: fl_zero)
next
  case False
  then have "0 < q" using assms(1) by simp
  then have "fl q = Fin (rnd q)" using assms(2) by (rule fl_below_max)
  then show ?thesis using rnd_nonneg[OF assms(1)] by simp
qed

lemma float_of_int_nonneg:
  assumes "0 \<le> n"
  shows "float_of_int n = Inl OverflowError \<or> (\<exists>r. float_of_int n = Inr (Fin r) \<and> 0 \<le> r)"
proof -
  have "(0::rat) \<le> of_int n" using assms by simp
  then show ?thesis by (rule fl_nonneg_cases) (auto simp: float_of_int_def)
qed

lemma int_truediv_nonneg:
  assumes "0 \<le> n"
  shows "int_truediv n 100 = Inl OverflowError \<or> (\<exists>r. int_truediv n 100 = Inr (Fin r) \<and> 0 \<le> r)"
proof -
  have "(0::rat) \<le> of_int n / of_int 100" using assms by simp
  then show ?thesis by (rule fl_nonneg_cases) (auto simp: int_truediv_def)
qed

lemma hundredths_nonneg:
  assumes "0 \<le> n"
  shows "hundredths v n = Inl OverflowError \<or> (\<exists>x. hundredths v n = Inr x \<and> float_nonneg x)"
proof (cases v)
  case Library
  then show ?thesis using int_truediv_nonneg[OF assms] by (auto simp: hundredths_def)
next
  case Gui
  from float_of_int_nonneg[OF assms] show ?thesis
  proof
    assume "float_of_int n = Inl OverflowError"
    then show ?thesis using Gui by (simp add: hundredths_def)
  next
    assume "\<exists>r. float_of_int n = Inr (Fin r) \<and> 0 \<le> r"
    then obtain r where r: "float_of_int n = Inr (Fin r)" "0 \<le> r" by blast
    have "float_nonneg (fl (r / 100))" using r(2) by (intro fl_nonneg) simp
    then show ?thesis using Gui r by (simp add: hundredths_def)
  qed
qed

lemma float_add_nonneg:
  "float_nonneg x \<Longrightarrow> float_nonneg y \<Longrightarrow> float_nonneg (float_add x y)"
  by (cases x; cases y) (auto intro: fl_nonneg)

lemma four_elements:
  assumes "length gs = 4"
  obtains h m s ms where "gs = [h, m, s, ms]"
proof -
  from assms obtain h t1 where 1: "gs = h # t1" "length t1 = 3" by (cases gs) auto
  then obtain m t2 where 2: "t1 = m # t2" "length t2 = 2" by (cases t1) auto
  then obtain s t3 where 3: "t2 = s # t3" "length t3 = 1" by (cases t2) auto
  then obtain ms where 4: "t3 = [ms]" by (cases t3) auto
  from 1 2 3 4 that show ?thesis by simp
qed

lemma seconds_four:
  "seconds v [h, m, s, ms] =
     (if 4300 < length h \<or> 4300 < length m \<or> 4300 < length s \<or> 4300 < length ms
      then Inl ValueError
      else (case hundredths v (int_of_digits ms) of
              Inl e \<Rightarrow> Inl e
            | Inr f \<Rightarrow>
               (case float_of_int (int_of_digits h * 3600 + int_of_digits m * 60 + int_of_digits s) of
                  Inl e \<Rightarrow> Inl e
                | Inr n \<Rightarrow> Inr (float_add n f))))"
  by (simp add: seconds_def py_int_def)

lemma seconds_result:
  assumes "digit_groups gs"
  shows "seconds v gs = Inl OverflowError \<or> seconds v gs = Inl ValueError
         \<or> (\<exists>x. seconds v gs = Inr x \<and> float_nonneg x)"
proof -
  from assms have "length gs = 4" by (simp add: digit_groups_def)
  then obtain h m s ms where gs: "gs = [h, m, s, ms]" by (rule four_elements)
  have d: "list_all is_digit h" "list_all is_digit m" "list_all is_digit s" "list_all is_digit ms"
    using assms gs by (auto simp: digit_groups_def)
  let ?n = "int_of_digits h * 3600 + int_of_digits m * 60 + int_of_digits s"
  have n: "0 \<le> ?n" using int_of_digits_bounds(1)[OF d(1)] int_of_digits_bounds(1)[OF d(2)]
      int_of_digits_bounds(1)[OF d(3)] by simp
  show ?thesis
  proof (cases "4300 < length h \<or> 4300 < length m \<or> 4300 < length s \<or> 4300 < length ms")
    case True
    then show ?thesis by (simp add: gs seconds_four)
  next
    case False
    from hundredths_nonneg[OF int_of_digits_bounds(1)[OF d(4)], of v] show ?thesis
    proof
      assume "hundredths v (int_of_digits ms) = Inl OverflowError"
      then show ?thesis using False by (simp add: gs seconds_four)
    next
      assume "\<exists>x. hundredths v (int_of_digits ms) = Inr x \<and> float_nonneg x"
      then obtain f where f: "hundredths v (int_of_digits ms) = Inr f" "float_nonneg f" by blast
      from float_of_int_nonneg[OF n] show ?thesis
      proof
        assume "float_of_int ?n = Inl OverflowError"
        then show ?thesis using f False by (simp add: gs seconds_four)
      next
        assume "\<exists>r. float_of_int ?n = Inr (Fin r) \<and> 0 \<le> r"
        then obtain r where r: "float_of_int ?n = Inr (Fin r)" "0 \<le> r" by blast
        have "float_nonneg (float_add (Fin r) f)"
          using r(2) f(2) by (intro float_add_nonneg) simp_all
        then show ?thesis using f r False by (simp add: gs seconds_four)
      qed
    qed
  qed
qed

text \<open>A field of more than 4300 digits makes the conversion raise ValueError.\<close>

lemma seconds_long:
  assumes "length gs = 4" "\<exists>g\<in>set gs. 4300 < length g"
  shows "seconds v gs = Inl ValueError"
proof -
  from assms(1) obtain h m s ms where gs: "gs = [h, m, s, ms]" by (rule four_elements)
  with assms(2) show ?thesis by (auto simp: seconds_four)
qed

lemma search_groups:
  assumes "re_search (duration_re v) line = Some gs \<or> re_search (time_re v) line = Some gs"
  shows "digit_groups gs"
proof -
  have s: "\<And>p s. re_search p s = Some gs \<Longrightarrow> \<exists>t. re_match p t = Some gs"
  proof -
    fix p s show "re_search p s = Some gs \<Longrightarrow> \<exists>t. re_match p t = Some gs"
      by (induction s) (auto split: option.splits)
  qed
  from assms obtain p t where p: "p = duration_re v \<or> p = time_re v" "re_match p t = Some gs"
    using s by blast
  have "length (filter (\<lambda>a. a = Digits) p) = 4"
    using p(1) by (cases v) (auto simp: duration_re_def time_re_def dot_atom_def)
  with re_match_groups(1)[OF p(2)] show ?thesis by (auto simp: digit_groups_def)
qed








section \<open>Facts about the body of the parsing loop\<close>

text \<open>The three branches of the loop body.\<close>

lemma process_line_duration_branch:
  assumes "py_contains ''Duration'' line" "duration = None"
  shows "process_line v duration line =
     (case re_search (duration_re v) line of
        None \<Rightarrow> Inr (None, None)
      | Some groups \<Rightarrow>
         (case seconds v groups of Inl e \<Rightarrow> Inl e | Inr d \<Rightarrow> Inr (Some d, None)))"
  using assms by (simp add: process_line_def)

lemma process_line_time_branch:
  assumes "\<not> (py_contains ''Duration'' line \<and> duration = None)"
    "py_contains ''time='' line" "duration = Some d" "float_bool d"
  shows "process_line v duration line =
     (case re_search (time_re v) line of
        None \<Rightarrow> Inr (Some d, None)
      | Some groups \<Rightarrow>
         (case seconds v groups of
            Inl e \<Rightarrow> Inl e
          | Inr elapsed \<Rightarrow>
             (case percent_of elapsed d of
                Inl e \<Rightarrow> Inl e
              | Inr percent \<Rightarrow> Inr (Some d, Some percent))))"
  using assms by (simp add: process_line_def cong: option.case_cong sum.case_cong)

lemma process_line_other_branch:
  assumes "\<not> (py_contains ''Duration'' line \<and> duration = None)"
    "\<not> (py_contains ''time='' line \<and> (case duration of None \<Rightarrow> False | Some d \<Rightarrow> float_bool d))"
  shows "process_line v duration line = Inr (duration, None)"
  unfolding process_line_def by (simp only: assms if_False)

lemma process_line_branches:
  obtains (duration_line) "py_contains ''Duration'' line" "duration = None"
  | (time_line) d where "\<not> (py_contains ''Duration'' line \<and> duration = None)"
      "py_contains ''time='' line" "duration = Some d" "float_bool d"
  | (other_line) "\<not> (py_contains ''Duration'' line \<and> duration = None)"
      "\<not> (py_contains ''time='' line \<and> (case duration of None \<Rightarrow> False | Some d \<Rightarrow> float_bool d))"
  by (cases duration) auto

lemma process_line_keeps_duration:
  assumes "process_line v (Some d) line = Inr (d', em)"
  shows "d' = Some d"
proof (cases line "Some d" rule: process_line_branches)
  case duration_line
  then show ?thesis by simp
next
  case (time_line d0)
  from assms time_line(3) show ?thesis
    unfolding process_line_time_branch[OF time_line]
    by (auto split: option.splits sum.splits)
next
  case other_line
  from assms show ?thesis
    unfolding process_line_other_branch[OF other_line] by simp
qed

lemma process_line_sets_duration:
  assumes "re_search (duration_re v) line = Some gs" "seconds v gs = Inr x"
  shows "process_line v None line = Inr (Some x, None)"
  using assms process_line_duration_branch[OF duration_match_contains[OF assms(1)], of None v]
  by simp

lemma process_line_silent_before:
  assumes "process_line v None line = Inr (d', em)"
  shows "em = None"
proof (cases line "None :: pyfloat option" rule: process_line_branches)
  case duration_line
  from assms show ?thesis
    unfolding process_line_duration_branch[OF duration_line]
    by (auto split: option.splits sum.splits)
next
  case (time_line d0)
  then show ?thesis by simp
next
  case other_line
  from assms show ?thesis
    unfolding process_line_other_branch[OF other_line] by simp
qed

lemma process_line_emission:
  assumes "process_line v duration line = Inr (d', Some p)"
  shows "\<exists>d gs elapsed. duration = Some d \<and> float_bool d \<and> d' = duration
           \<and> re_search (time_re v) line = Some gs \<and> seconds v gs = Inr elapsed
           \<and> percent_of elapsed d = Inr p"
proof (cases line duration rule: process_line_branches)
  case duration_line
  from assms show ?thesis
    unfolding process_line_duration_branch[OF duration_line]
    by (auto split: option.splits sum.splits)
next
  case (time_line d0)
  from assms time_line(3,4) show ?thesis
    unfolding process_line_time_branch[OF time_line]
    by (auto split: option.splits sum.splits)
next
  case other_line
  from assms show ?thesis
    unfolding process_line_other_branch[OF other_line] by simp
qed


lemma process_line_no_match:
  assumes "re_search (duration_re v) line = None" "re_search (time_re v) line = None"
  shows "process_line v duration line = Inr (duration, None)"
proof (cases line duration rule: process_line_branches)
  case duration_line
  then show ?thesis
    using assms(1) process_line_duration_branch[OF duration_line, of v] by simp
next
  case (time_line d0)
  then show ?thesis
    using assms(2) process_line_time_branch[OF time_line, of v] by simp
next
  case other_line
  then show ?thesis by (rule process_line_other_branch)
qed





section \<open>Example lines\<close>














section \<open>Facts about the percentage\<close>

lemma py_min_100_range:
  assumes "float_nonneg x"
  shows "is_percent (py_min_100 x)"
  using assms by (cases x) (auto simp: py_min_100_def is_percent_def)

lemma float_mul_100_nonneg:
  assumes "float_nonneg q"
  shows "float_nonneg (float_mul q (Fin 100))"
  using assms by (cases q) (auto intro: fl_nonneg)

lemma float_div_nonneg:
  assumes "float_nonneg e" "float_nonneg d" "float_div e d = Inr q"
  shows "q = NaN \<or> float_nonneg q"
proof (cases e)
  case (Fin a)
  show ?thesis
  proof (cases d)
    case (Fin b)
    with assms \<open>e = Fin a\<close> have "0 \<le> a / b" "q = fl (a / b)" by (auto split: if_splits)
    then show ?thesis using fl_nonneg by blast
  qed (use assms Fin in auto)
qed (use assms in \<open>cases d; auto split: if_splits\<close>)+

lemma percent_range:
  assumes "float_nonneg e" "float_nonneg d" "percent_of e d = Inr p"
  shows "p = NaN \<or> is_percent p"
proof -
  from assms(3) obtain q where q: "float_div e d = Inr q" "p = py_min_100 (float_mul q (Fin 100))"
    by (auto simp: percent_of_def split: sum.splits)
  from float_div_nonneg[OF assms(1,2) q(1)] show ?thesis
  proof
    assume "q = NaN"
    then show ?thesis using q(2) by (simp add: py_min_100_def)
  next
    assume "float_nonneg q"
    then show ?thesis using q(2) py_min_100_range float_mul_100_nonneg by blast
  qed
qed

lemma py_min_100_mono:
  assumes "float_le x y"
  shows "float_le (py_min_100 x) (py_min_100 y)"
  using assms by (cases x; cases y) (auto simp: py_min_100_def)

lemma float_mul_100_mono:
  assumes "float_nonneg x" "float_le x y"
  shows "float_le (float_mul x (Fin 100)) (float_mul y (Fin 100))"
proof (cases x)
  case (Fin a)
  show ?thesis
  proof (cases y)
    case (Fin b)
    have "float_le (fl (a * 100)) (fl (b * 100))"
      using assms \<open>x = Fin a\<close> Fin by (intro fl_mono) auto
    then show ?thesis using \<open>x = Fin a\<close> Fin by simp
  next
    case PInf
    have "float_nonneg (fl (a * 100))" using assms(1) \<open>x = Fin a\<close> by (intro fl_nonneg) auto
    then show ?thesis using \<open>x = Fin a\<close> PInf by (cases "fl (a * 100)") auto
  qed (use assms Fin in auto)
qed (use assms in \<open>cases y; auto\<close>)+

lemma percent_mono:
  assumes "float_nonneg e1" "float_le e1 e2" "float_nonneg d"
    "percent_of e1 d = Inr p1" "percent_of e2 d = Inr p2" "p1 \<noteq> NaN" "p2 \<noteq> NaN"
  shows "float_le p1 p2"
proof -
  from assms(4) obtain q1 where q1: "float_div e1 d = Inr q1" "p1 = py_min_100 (float_mul q1 (Fin 100))"
    by (auto simp: percent_of_def split: sum.splits)
  from assms(5) obtain q2 where q2: "float_div e2 d = Inr q2" "p2 = py_min_100 (float_mul q2 (Fin 100))"
    by (auto simp: percent_of_def split: sum.splits)
  have n1: "q1 \<noteq> NaN" using assms(6) q1(2) by (auto simp: py_min_100_def)
  have n2: "q2 \<noteq> NaN" using assms(7) q2(2) by (auto simp: py_min_100_def)
  have e2: "float_nonneg e2" using assms(1,2) by (cases e1; cases e2) auto
  have nn: "float_nonneg q1" using float_div_nonneg[OF assms(1,3) q1(1)] n1 by simp
  have "float_le q1 q2"
  proof (cases d)
    case (Fin b)
    then have b: "0 < b" using q1(1) assms(3) by (cases e1) (auto split: if_splits)
    show ?thesis
    proof (cases e1)
      case e1: (Fin a1)
      show ?thesis
      proof (cases e2)
        case e2: (Fin a2)
        have "float_le (fl (a1 / b)) (fl (a2 / b))"
          using assms(1,2) e1 e2 b by (intro fl_mono) (auto simp: divide_right_mono)
        then show ?thesis using q1(1) q2(1) e1 e2 Fin b by simp
      next
        case PInf
        then have "q2 = PInf" using q2(1) Fin b by simp
        then show ?thesis using nn by (cases q1) auto
      qed (use assms e1 in auto)
    next
      case PInf
      then have "e2 = PInf" using assms(2) by (cases e2) auto
      then show ?thesis using PInf q1(1) q2(1) Fin b by simp
    qed (use assms in auto)
  next
    case PInf
    then have "q1 = Fin 0" using q1(1) n1 by (cases e1) auto
    moreover have "q2 = Fin 0" using q2(1) n2 PInf by (cases e2) auto
    ultimately show ?thesis by simp
  qed (use assms in auto)
  then have "float_le (float_mul q1 (Fin 100)) (float_mul q2 (Fin 100))"
    using nn by (intro float_mul_100_mono)
  then show ?thesis unfolding q1(2) q2(2) by (rule py_min_100_mono)
qed

section \<open>The accuracy of the percentage\<close>









section \<open>Facts about the parsing loop\<close>

lemma seconds_nonneg:
  assumes "re_search (duration_re v) line = Some gs \<or> re_search (time_re v) line = Some gs"
    "seconds v gs = Inr x"
  shows "float_nonneg x"
  using seconds_result[OF search_groups[OF assms(1)], of v] assms(2) by auto

lemma process_line_duration_ok:
  assumes "duration_ok duration" "process_line v duration line = Inr (d', em)"
  shows "duration_ok d'"
proof (cases line duration rule: process_line_branches)
  case duration_line
  show ?thesis
  proof (cases "re_search (duration_re v) line")
    case None
    with assms show ?thesis
      unfolding process_line_duration_branch[OF duration_line] by (auto simp: duration_ok_def)
  next
    case (Some gs)
    then obtain x where x: "seconds v gs = Inr x" "d' = Some x"
      using assms(2) unfolding process_line_duration_branch[OF duration_line]
      by (auto split: sum.splits)
    then show ?thesis using seconds_nonneg Some by (auto simp: duration_ok_def)
  qed
next
  case (time_line d0)
  from assms(2) have "d' = duration"
    using process_line_keeps_duration[of v d0 line d' em] time_line(3) by simp
  then show ?thesis using assms(1) by simp
next
  case other_line
  with assms show ?thesis
    unfolding process_line_other_branch[OF other_line] by simp
qed

lemma process_line_percent:
  assumes "duration_ok duration" "process_line v duration line = Inr (d', Some p)"
  shows "p = NaN \<or> is_percent p"
proof -
  from process_line_emission[OF assms(2)] obtain d gs elapsed where
    e: "duration = Some d" "re_search (time_re v) line = Some gs" "seconds v gs = Inr elapsed"
      "percent_of elapsed d = Inr p" by blast
  have "float_nonneg elapsed" using seconds_nonneg e(2,3) by blast
  moreover have "float_nonneg d" using assms(1) e(1) by (simp add: duration_ok_def)
  ultimately show ?thesis using e(4) by (rule percent_range)
qed

lemma parse_loop_Cons_cases:
  assumes "parse_loop v record_cb duration (line # lines) = (ps, r)"
  obtains (error) e where "process_line v duration line = Inl e" "ps = []" "r = Some e"
  | (silent) d' where "process_line v duration line = Inr (d', None)"
      "parse_loop v record_cb d' lines = (ps, r)"
  | (emit) d' p ps' where "process_line v duration line = Inr (d', Some p)"
      "parse_loop v record_cb d' lines = (ps', r)" "ps = p # ps'"
proof (cases "process_line v duration line")
  case (Inl e)
  with assms error show ?thesis by simp
next
  case (Inr x)
  obtain d' em where x: "x = (d', em)" by (cases x)
  show ?thesis
  proof (cases em)
    case None
    with assms Inr x silent show ?thesis by simp
  next
    case (Some p)
    obtain ps' r' where l: "parse_loop v record_cb d' lines = (ps', r')"
      by (cases "parse_loop v record_cb d' lines")
    with assms Inr x Some emit show ?thesis by (simp add: record_cb_def)
  qed
qed

lemma parse_loop_range:
  "duration_ok duration \<Longrightarrow> parse_loop v record_cb duration lines = (ps, r) \<Longrightarrow>
   \<forall>p\<in>set ps. p = NaN \<or> is_percent p"
proof (induction lines arbitrary: duration ps)
  case Nil
  then show ?case by simp
next
  case (Cons line lines)
  from Cons.prems(2) show ?case
  proof (cases rule: parse_loop_Cons_cases)
    case (error e)
    then show ?thesis by simp
  next
    case (silent d')
    from Cons.IH[OF process_line_duration_ok[OF Cons.prems(1) silent(1)] silent(2)]
    show ?thesis .
  next
    case (emit d' p ps')
    from Cons.IH[OF process_line_duration_ok[OF Cons.prems(1) emit(1)] emit(2)]
      process_line_percent[OF Cons.prems(1) emit(1)] emit(3)
    show ?thesis by simp
  qed
qed

lemma time_stamps_Cons:
  "time_stamps v (line # lines) =
     (case line_stamp v line of None \<Rightarrow> time_stamps v lines | Some x \<Rightarrow> x # time_stamps v lines)"
  by (simp add: time_stamps_def List.map_filter_simps split: option.splits)

lemma sorted_stamps_tail:
  "sorted_wrt float_le (time_stamps v (line # lines)) \<Longrightarrow> sorted_wrt float_le (time_stamps v lines)"
  by (auto simp: time_stamps_Cons split: option.splits)

text \<open>Every emission of the loop comes from the time stamp of one of its lines.\<close>

lemma parse_loop_sources:
  "parse_loop v record_cb (Some d) lines = (ps, r) \<Longrightarrow> p \<in> set ps \<Longrightarrow>
   \<exists>e\<in>set (time_stamps v lines). percent_of e d = Inr p"
proof (induction lines arbitrary: ps)
  case Nil
  then show ?case by simp
next
  case (Cons line lines)
  from Cons.prems(1) show ?case
  proof (cases rule: parse_loop_Cons_cases)
    case (error e)
    with Cons.prems(2) show ?thesis by simp
  next
    case (silent d')
    then have "d' = Some d" using process_line_keeps_duration by blast
    with Cons.IH[of ps] silent(2) Cons.prems(2) show ?thesis
      by (auto simp: time_stamps_Cons split: option.splits)
  next
    case (emit d' p0 ps')
    then have d': "d' = Some d" using process_line_keeps_duration by blast
    from process_line_emission[OF emit(1)] obtain gs elapsed where
      e: "re_search (time_re v) line = Some gs" "seconds v gs = Inr elapsed"
        "percent_of elapsed d = Inr p0" by auto
    then have st: "line_stamp v line = Some elapsed" by (simp add: line_stamp_def)
    show ?thesis
    proof (cases "p = p0")
      case True
      then show ?thesis using e(3) st by (auto simp: time_stamps_Cons)
    next
      case False
      then have "p \<in> set ps'" using Cons.prems(2) emit(3) by simp
      from Cons.IH[OF emit(2)[unfolded d'] this] show ?thesis
        by (auto simp: time_stamps_Cons st)
    qed
  qed
qed

lemma stamps_nonneg: "e \<in> set (time_stamps v lines) \<Longrightarrow> float_nonneg e"
proof (induction lines)
  case Nil
  then show ?case by (simp add: time_stamps_def List.map_filter_simps)
next
  case (Cons line lines)
  then show ?case
    using seconds_nonneg[of v line]
    by (auto simp: time_stamps_Cons line_stamp_def split: option.splits sum.splits)
qed

lemma parse_loop_sorted_known:
  "float_nonneg d \<Longrightarrow> parse_loop v record_cb (Some d) lines = (ps, r) \<Longrightarrow>
   sorted_wrt float_le (time_stamps v lines) \<Longrightarrow> NaN \<notin> set ps \<Longrightarrow> sorted_wrt float_le ps"
proof (induction lines arbitrary: ps)
  case Nil
  then show ?case by simp
next
  case (Cons line lines)
  note tail = sorted_stamps_tail[OF Cons.prems(3)]
  from Cons.prems(2) show ?case
  proof (cases rule: parse_loop_Cons_cases)
    case (error e)
    then show ?thesis by simp
  next
    case (silent d')
    then have "d' = Some d" using process_line_keeps_duration by blast
    with Cons.IH[OF Cons.prems(1) _ tail Cons.prems(4)] silent(2) show ?thesis by simp
  next
    case (emit d' p0 ps')
    then have d': "d' = Some d" using process_line_keeps_duration by blast
    from process_line_emission[OF emit(1)] obtain gs elapsed where
      e: "re_search (time_re v) line = Some gs" "seconds v gs = Inr elapsed"
        "percent_of elapsed d = Inr p0" by auto
    then have st: "line_stamp v line = Some elapsed" by (simp add: line_stamp_def)
    have en: "float_nonneg elapsed" using seconds_nonneg e(1,2) by blast
    have nan: "NaN \<notin> set ps'" "p0 \<noteq> NaN" using Cons.prems(4) emit(3) by auto
    have rest: "sorted_wrt float_le ps'"
      using Cons.IH[OF Cons.prems(1) emit(2)[unfolded d'] tail nan(1)] .
    have "\<forall>p\<in>set ps'. float_le p0 p"
    proof
      fix p assume p: "p \<in> set ps'"
      from parse_loop_sources[OF emit(2)[unfolded d'] p] obtain e' where
        e': "e' \<in> set (time_stamps v lines)" "percent_of e' d = Inr p" by blast
      have "float_le elapsed e'"
        using Cons.prems(3) e'(1) by (simp add: time_stamps_Cons st)
      then show "float_le p0 p"
        using percent_mono[OF en _ Cons.prems(1) e(3) e'(2)] nan p by metis
    qed
    with rest emit(3) show ?thesis by simp
  qed
qed

lemma parse_loop_sorted:
  "duration_ok duration \<Longrightarrow> parse_loop v record_cb duration lines = (ps, r) \<Longrightarrow>
   sorted_wrt float_le (time_stamps v lines) \<Longrightarrow> NaN \<notin> set ps \<Longrightarrow> sorted_wrt float_le ps"
proof (cases duration)
  case (Some d)
  assume "duration_ok duration" "parse_loop v record_cb duration lines = (ps, r)"
    "sorted_wrt float_le (time_stamps v lines)" "NaN \<notin> set ps"
  then show ?thesis using Some parse_loop_sorted_known[of d v lines ps r]
    by (simp add: duration_ok_def)
next
  case None
  assume a: "parse_loop v record_cb duration lines = (ps, r)"
    "sorted_wrt float_le (time_stamps v lines)" "NaN \<notin> set ps"
  from a show ?thesis unfolding None
  proof (induction lines arbitrary: ps)
    case Nil
    then show ?case by simp
  next
    case (Cons line lines)
    note tail = sorted_stamps_tail[OF Cons.prems(2)]
    from Cons.prems(1) show ?case
    proof (cases rule: parse_loop_Cons_cases)
      case (error e)
      then show ?thesis by simp
    next
      case (silent d')
      have ok: "duration_ok d'"
        using process_line_duration_ok[OF _ silent(1)] by (simp add: duration_ok_def)
      show ?thesis
      proof (cases d')
        case None
        with Cons.IH[OF _ tail Cons.prems(3)] silent(2) show ?thesis by simp
      next
        case (Some d)
        then have "float_nonneg d" using ok by (simp add: duration_ok_def)
        from parse_loop_sorted_known[OF this silent(2)[unfolded Some] tail Cons.prems(3)]
        show ?thesis .
      qed
    next
      case (emit d' p0 ps')
      then show ?thesis using process_line_silent_before by blast
    qed
  qed
qed

section \<open>Facts about the conversion of one file\<close>



lemma convert_file_skip:
  assumes "path_exists w output_file"
  shows "convert_file f w j input_file output_file cb
         = \<lparr>started = None, effects = [], raised = None\<rparr>"
  using assms by (simp add: convert_file_def)


lemma convert_file_callback:
  assumes "\<not> path_exists w output_file"
    "build_ffmpeg_command f (job_streams j) input_file output_file 18 ''slow'' = Inr c"
    "parse_loop Library record_cb None (job_lines j) = (ps, r)"
  shows "convert_file f w j input_file output_file (Some record_cb)
         = (case r of
              Some e \<Rightarrow> \<lparr>started = Some c, effects = ps, raised = Some e\<rparr>
            | None \<Rightarrow> \<lparr>started = Some c,
                        effects = ps @ (if job_returncode j = 0 then [Fin 100] else []),
                        raised = None\<rparr>)"
  using assms by (cases r) (simp_all add: convert_file_def record_cb_def)

lemma convert_file_effects:
  obtains "effects (convert_file f w j input_file output_file (Some record_cb)) = []"
  | ps r where "parse_loop Library record_cb None (job_lines j) = (ps, r)"
      "effects (convert_file f w j input_file output_file (Some record_cb)) = ps"
  | ps where "parse_loop Library record_cb None (job_lines j) = (ps, None)"
      "effects (convert_file f w j input_file output_file (Some record_cb)) = ps @ [Fin 100]"
proof (cases "path_exists w output_file")
  case True
  then show ?thesis using that(1) by (simp add: convert_file_skip)
next
  case False
  show ?thesis
  proof (cases "build_ffmpeg_command f (job_streams j) input_file output_file 18 ''slow''")
    case (Inl e)
    with False show ?thesis using that(1) by (simp add: convert_file_def)
  next
    case (Inr c)
    obtain ps r where l: "parse_loop Library record_cb None (job_lines j) = (ps, r)"
      by (cases "parse_loop Library record_cb None (job_lines j)")
    show ?thesis
    proof (cases r)
      case None
      then show ?thesis
        using that(2)[OF l] that(3)[of ps] l convert_file_callback[OF False Inr l]
        by (cases "job_returncode j = 0") simp_all
    next
      case (Some e)
      then show ?thesis using that(2)[OF l] convert_file_callback[OF False Inr l] by simp
    qed
  qed
qed

section \<open>The parsing loop and the parser of the specification\<close>









section \<open>The progress parser: claim C4\<close>





section \<open>The conversion of one file: claim C6\<close>







section \<open>Facts about paths\<close>

lemma name_split:
  assumes "name_suffix name \<noteq> []"
  shows "name = take (length name - length (name_suffix name)) name @ name_suffix name"
proof -
  let ?P = "\<lambda>c. c \<noteq> CHR ''.''"
  let ?ext = "rev (takeWhile ?P (rev name))"
  from assms have dot: "CHR ''.'' \<in> set name" and s: "name_suffix name = CHR ''.'' # ?ext"
    by (auto simp: name_suffix_def Let_def split: if_splits)
  have "dropWhile ?P (rev name) \<noteq> []" using dot by (simp add: dropWhile_eq_Nil_conv)
  moreover have "dropWhile ?P (rev name) \<noteq> [] \<Longrightarrow> hd (dropWhile ?P (rev name)) = CHR ''.''"
    using hd_dropWhile[of ?P "rev name"] by simp
  ultimately obtain t where t: "dropWhile ?P (rev name) = CHR ''.'' # t"
    by (cases "dropWhile ?P (rev name)") auto
  have "rev name = takeWhile ?P (rev name) @ dropWhile ?P (rev name)" by simp
  then have "rev name = takeWhile ?P (rev name) @ CHR ''.'' # t" using t by simp
  then have "name = rev (takeWhile ?P (rev name) @ CHR ''.'' # t)" by (metis rev_rev_ident)
  then have n: "name = rev t @ CHR ''.'' # ?ext" by simp
  have "take (length name - length (name_suffix name)) name = rev t"
    by (subst (2) n, subst n, simp add: s)
  then show ?thesis using n s by simp
qed

lemma with_suffix_same:
  assumes "path_suffix p = s" "s \<noteq> []"
  shows "with_suffix p s = Inr p"
proof -
  let ?name = "path_name p"
  have ns: "name_suffix ?name = s" using assms(1) by (simp add: path_suffix_def)
  then have ne: "?name \<noteq> []" using assms(2) by (auto simp: name_suffix_def)
  have "?name = take (length ?name - length s) ?name @ s"
    using name_split[of ?name] ns assms(2) by simp
  moreover have "p = path_parent p @ ?name"
    unfolding path_parent_def path_name_def
    by (metis rev_append rev_rev_ident takeWhile_dropWhile_id)
  ultimately have "path_parent p @ take (length ?name - length s) ?name @ s = p" by simp
  then show ?thesis using ne ns by (simp add: with_suffix_def Let_def)
qed

section \<open>Facts about the batch scheduler of the library\<close>

lemma world_after_is_file: "is_file w p \<Longrightarrow> is_file (world_after w j out b) p"
  by (simp add: world_after_def)

lemma batch_loop_mp4:
  "\<forall>p\<in>set files. is_file w p \<Longrightarrow> (file, r) \<in> set (batch_loop f env cb n w i files) \<Longrightarrow>
   path_suffix file = ''.mp4'' \<Longrightarrow> r = \<lparr>started = None, effects = [], raised = None\<rparr>"
proof (induction files arbitrary: w i)
  case Nil
  then show ?case by simp
next
  case (Cons file0 files)
  show ?case
  proof (cases "with_suffix file0 ''.mp4''")
    case (Inl e)
    then have "file = file0" using Cons.prems(2) by simp
    then have "with_suffix file0 ''.mp4'' = Inr file0"
      using Cons.prems(3) by (intro with_suffix_same) simp_all
    with Inl show ?thesis by simp
  next
    case (Inr out)
    define r0 where "r0 = convert_file f w (env file0) file0 out (Some (file_progress cb i n))"
    have mem: "(file, r) = (file0, r0) \<or> (raised r0 = None \<and> (file, r) \<in> set (batch_loop f env cb n
        (world_after w (env file0) out (started r0 \<noteq> None)) (i + 1) files))"
      using Cons.prems(2) Inr unfolding r0_def by (auto simp: Let_def split: if_splits)
    from mem show ?thesis
    proof
      assume eq: "(file, r) = (file0, r0)"
      then have "with_suffix file0 ''.mp4'' = Inr file0"
        using Cons.prems(3) by (intro with_suffix_same) simp_all
      then have "out = file0" using Inr by simp
      moreover have "path_exists w file0" using Cons.prems(1) by (simp add: path_exists_def)
      ultimately show ?thesis using eq unfolding r0_def by (simp add: convert_file_skip)
    next
      assume rest: "raised r0 = None \<and> (file, r) \<in> set (batch_loop f env cb n
        (world_after w (env file0) out (started r0 \<noteq> None)) (i + 1) files)"
      have "\<forall>p\<in>set files. is_file (world_after w (env file0) out (started r0 \<noteq> None)) p"
        using Cons.prems(1) by (simp add: world_after_is_file)
      from Cons.IH[OF this _ Cons.prems(3)] rest show ?thesis by blast
    qed
  qed
qed

lemma candidates_are_files: "\<forall>p\<in>set (candidates w entries). is_file w p"
  by (simp add: candidates_def)

lemma parse_loop_effects:
  "parse_loop v cb d lines = (as, r) \<Longrightarrow> \<forall>a\<in>set as. \<exists>p. cb p = Inr a"
proof (induction lines arbitrary: d as r)
  case Nil
  then show ?case by simp
next
  case (Cons line lines)
  show ?case
  proof (cases "process_line v d line")
    case (Inl e)
    with Cons.prems show ?thesis by simp
  next
    case (Inr x)
    obtain d' em where x: "x = (d', em)" by (cases x)
    obtain as' r' where l: "parse_loop v cb d' lines = (as', r')"
      by (cases "parse_loop v cb d' lines")
    note IH = Cons.IH[OF l]
    show ?thesis
    proof (cases em)
      case None
      with Cons.prems Inr x l IH show ?thesis by simp
    next
      case (Some p)
      show ?thesis
      proof (cases "cb p")
        case (Inl e)
        with Cons.prems Inr x Some show ?thesis by simp
      next
        case cbp: (Inr a)
        with Cons.prems Inr x Some l have "as = a # as'" by simp
        with IH cbp show ?thesis by auto
      qed
    qed
  qed
qed

lemma convert_file_effects_cb:
  "\<forall>a\<in>set (effects (convert_file f w j input_file output_file (Some cb))). \<exists>p. cb p = Inr a"
proof (cases "path_exists w output_file")
  case True
  then show ?thesis by (simp add: convert_file_skip)
next
  case False
  show ?thesis
  proof (cases "build_ffmpeg_command f (job_streams j) input_file output_file 18 ''slow''")
    case (Inl e)
    with False show ?thesis by (simp add: convert_file_def)
  next
    case (Inr c)
    obtain as r where l: "parse_loop Library cb None (job_lines j) = (as, r)"
      by (cases "parse_loop Library cb None (job_lines j)")
    from parse_loop_effects[OF l] False Inr l show ?thesis
      by (cases r; cases "cb (Fin 100)") (auto simp: convert_file_def)
  qed
qed

lemma batch_loop_nth:
  "k < length (batch_loop f env cb n w i files) \<Longrightarrow>
   k < length files \<and> fst (batch_loop f env cb n w i files ! k) = files ! k
   \<and> (\<forall>a\<in>set (effects (snd (batch_loop f env cb n w i files ! k))).
         \<exists>p. file_progress cb (i + k) n p = Inr a)"
proof (induction files arbitrary: w i k)
  case Nil
  then show ?case by simp
next
  case (Cons file0 files)
  show ?case
  proof (cases "with_suffix file0 ''.mp4''")
    case (Inl e)
    with Cons.prems show ?thesis by simp
  next
    case (Inr out)
    define r0 where "r0 = convert_file f w (env file0) file0 out (Some (file_progress cb i n))"
    have e0: "\<forall>a\<in>set (effects r0). \<exists>p. file_progress cb i n p = Inr a"
      unfolding r0_def by (rule convert_file_effects_cb)
    show ?thesis
    proof (cases k)
      case 0
      then show ?thesis using Inr e0 unfolding r0_def by (simp add: Let_def)
    next
      case (Suc k')
      then have nr: "raised r0 = None" and
        len: "k' < length (batch_loop f env cb n
                (world_after w (env file0) out (started r0 \<noteq> None)) (i + 1) files)"
        using Cons.prems Inr unfolding r0_def by (auto simp: Let_def split: if_splits)
      from Cons.IH[OF len] nr Inr Suc show ?thesis
        unfolding r0_def by (simp add: Let_def)
    qed
  qed
qed

section \<open>Inputs that are already MP4 files: claim C10\<close>

text \<open>
  Claim C10, amended. For every input file whose extension is exactly \<open>.mp4\<close> (in lower
  case), the output path \<open>batch_convert\<close> computes is the input path itself;
  \<open>batch_convert\<close> lists the file as a candidate but does not convert it: the call of
  \<open>convert_file\<close> for it returns at the check for an existing output, without starting
  the encoder and without emitting progress.
\<close>

theorem batch_convert_skips_mp4:
  "(path_suffix file = ''.mp4'' \<longrightarrow> with_suffix file ''.mp4'' = Inr file)
   \<and> (file \<in> set entries \<and> is_file w file \<and> path_suffix file = ''.mp4''
        \<longrightarrow> file \<in> set (candidates w entries))
   \<and> ((file, r) \<in> set (batch_convert f env w entries has_callback)
        \<and> path_suffix file = ''.mp4''
        \<longrightarrow> r = \<lparr>started = None, effects = [], raised = None\<rparr>)"
proof (intro conjI impI)
  assume "path_suffix file = ''.mp4''"
  then show "with_suffix file ''.mp4'' = Inr file" by (intro with_suffix_same) simp_all
next
  assume "file \<in> set entries \<and> is_file w file \<and> path_suffix file = ''.mp4''"
  then show "file \<in> set (candidates w entries)"
    by (simp add: candidates_def py_lower_def lower_char_def VIDEO_EXTENSIONS_def)
next
  assume a: "(file, r) \<in> set (batch_convert f env w entries has_callback)
        \<and> path_suffix file = ''.mp4''"
  then have "(file, r) \<in> set (batch_loop f env has_callback (length (candidates w entries)) w 1
                (candidates w entries))"
    by (simp add: batch_convert_def)
  from batch_loop_mp4[OF candidates_are_files this] a
  show "r = \<lparr>started = None, effects = [], raised = None\<rparr>" by simp
qed

theorem batch_convert_skips_mp4_witness:
  "path_suffix ''a/clip.mp4'' = ''.mp4''
   \<and> with_suffix ''a/clip.mp4'' ''.mp4'' = Inr ''a/clip.mp4''
   \<and> ''a/clip.mp4'' \<in> set (candidates
         \<lparr>is_file = (\<lambda>p. p = ''a/clip.mp4''), is_dir = (\<lambda>p. False)\<rparr> [''a/clip.mp4''])
   \<and> batch_convert decimal_int (\<lambda>p. example_job)
         \<lparr>is_file = (\<lambda>p. p = ''a/clip.mp4''), is_dir = (\<lambda>p. False)\<rparr> [''a/clip.mp4''] True
       = [(''a/clip.mp4'', \<lparr>started = None, effects = [], raised = None\<rparr>)]"
proof -
  let ?w = "\<lparr>is_file = (\<lambda>p. p = ''a/clip.mp4''), is_dir = (\<lambda>p. False)\<rparr>"
  have s: "path_suffix ''a/clip.mp4'' = ''.mp4''"
    by (simp add: path_suffix_def path_name_def name_suffix_def)
  have 1: "with_suffix ''a/clip.mp4'' ''.mp4'' = Inr ''a/clip.mp4''"
    by (rule batch_convert_skips_mp4[THEN conjunct1, rule_format, OF s])
  have 2: "''a/clip.mp4'' \<in> set (candidates ?w [''a/clip.mp4''])"
    by (rule batch_convert_skips_mp4[THEN conjunct2, THEN conjunct1, rule_format])
      (simp add: s)
  have c: "candidates ?w [''a/clip.mp4''] = [''a/clip.mp4'']"
    by (simp add: candidates_def s py_lower_def lower_char_def VIDEO_EXTENSIONS_def)
  obtain r where r: "batch_convert decimal_int (\<lambda>p. example_job) ?w [''a/clip.mp4''] True
      = [(''a/clip.mp4'', r)]"
    by (simp add: batch_convert_def c 1 Let_def convert_file_def path_exists_def)
  then have "(''a/clip.mp4'', r) \<in> set (batch_convert decimal_int (\<lambda>p. example_job) ?w
      [''a/clip.mp4''] True)" by simp
  then have "r = \<lparr>started = None, effects = [], raised = None\<rparr>"
    using batch_convert_skips_mp4[THEN conjunct2, THEN conjunct2, rule_format] s by blast
  with r s 1 2 show ?thesis by simp
qed

text \<open>
  The claim as stated, for an extension \<open>.mp4\<close> in any letter case, fails: \<open>clip.MP4\<close> is a
  candidate, its output path is \<open>clip.mp4\<close>, a different path, and where that path does
  not exist the encoder is started on the file.
\<close>

theorem batch_convert_converts_upper_case_mp4:
  "py_lower (path_suffix ''clip.MP4'') = ''.mp4''
   \<and> with_suffix ''clip.MP4'' ''.mp4'' = Inr ''clip.mp4''
   \<and> map (\<lambda>(p, r). (p, started r))
        (batch_convert decimal_int
           (\<lambda>p. \<lparr>job_streams = [], job_lines = [], job_returncode = 0,
                  job_creates_output = True\<rparr>)
           \<lparr>is_file = (\<lambda>p. p = ''clip.MP4''), is_dir = (\<lambda>p. False)\<rparr> [''clip.MP4''] False)
       = [(''clip.MP4'', Some [''ffmpeg'', ''-y'', ''-i'', ''clip.MP4'',
                               ''-movflags'', ''+faststart'', ''clip.mp4''])]"
proof -
  have s: "path_suffix ''clip.MP4'' = ''.MP4''"
    by (simp add: path_suffix_def path_name_def name_suffix_def)
  have l: "py_lower ''.MP4'' = ''.mp4''" by (simp add: py_lower_def lower_char_def)
  have o: "with_suffix ''clip.MP4'' ''.mp4'' = Inr ''clip.mp4''"
    by (simp add: with_suffix_def path_name_def name_suffix_def path_parent_def)
  have c: "candidates \<lparr>is_file = (\<lambda>p. p = ''clip.MP4''), is_dir = (\<lambda>p. False)\<rparr> [''clip.MP4'']
           = [''clip.MP4'']"
    by (simp add: candidates_def s l VIDEO_EXTENSIONS_def)
  show ?thesis
    by (simp add: s l o c batch_convert_def Let_def convert_file_def path_exists_def
        build_ffmpeg_command_def file_progress_def)
qed

section \<open>Facts about the controller and the scheduler of the GUI\<close>

lemma emit_fields [simp]:
  "c_reads (emit e st) = c_reads st" "p_reads (emit e st) = p_reads st"
  "converted_count (emit e st) = converted_count st"
  "events (emit e st) = events st @ [(c_reads st, e)]"
  by (simp_all add: emit_def)
































section \<open>Cancellation: claim C5\<close>






end
